theory Spec2Isabelle
  imports Main "HOL-Library.Word"
begin

unbundle bit_operations_syntax

section \<open>Bytes, Node buffers and JavaScript values\<close>

text \<open>
  A Node \<open>Buffer\<close> is a list of bytes. \<open>Buffer.slice(start, stop)\<close> clamps both ends to
  the buffer and never throws; \<open>readUInt16BE\<close> and \<open>readUInt8\<close> throw a range error
  when the read leaves the buffer. A thrown JavaScript exception is the \<open>Inl\<close> of a sum.
\<close>

type_synonym byte = "8 word"

type_synonym bytes = "byte list"

datatype js_error = Error string | RangeError string | TypeError string

definition slice :: "bytes \<Rightarrow> nat \<Rightarrow> nat \<Rightarrow> bytes" where
  "slice b start stop = take (stop - start) (drop start b)"

definition readUInt8 :: "bytes \<Rightarrow> nat \<Rightarrow> js_error + byte" where
  "readUInt8 b off =
     (if off + 1 \<le> length b then Inr (b ! off) else Inl (RangeError ''ERR_OUT_OF_RANGE''))"

definition readUInt16BE :: "bytes \<Rightarrow> nat \<Rightarrow> js_error + nat" where
  "readUInt16BE b off =
     (if off + 2 \<le> length b then Inr (unat (b ! off) * 256 + unat (b ! (off + 1)))
      else Inl (RangeError ''ERR_OUT_OF_RANGE''))"

text \<open>\<open>Buffer.writeUInt16BE\<close> on a fresh two-byte buffer: values above 65535 throw.\<close>

definition writeUInt16BE :: "nat \<Rightarrow> js_error + bytes" where
  "writeUInt16BE v =
     (if v \<le> 65535 then Inr [of_nat (v div 256), of_nat (v mod 256)]
      else Inl (RangeError ''ERR_OUT_OF_RANGE''))"

text \<open>\<open>Buffer.from\<close> on an ASCII string: one byte per character.\<close>

definition Buffer_from :: "string \<Rightarrow> bytes" where
  "Buffer_from s = map (\<lambda>c. of_nat (of_char c)) s"

text \<open>\<open>Number.prototype.toString(16)\<close> on a non-negative integer: lowercase digits, no padding.\<close>

definition hexDigit :: "nat \<Rightarrow> char" where
  "hexDigit d = ''0123456789abcdef'' ! d"

function toString16 :: "nat \<Rightarrow> string" where
  "toString16 n = (if n < 16 then [hexDigit n] else toString16 (n div 16) @ [hexDigit (n mod 16)])"
  by pat_completeness auto
termination
  by (relation "measure id") auto

declare toString16.simps [simp del]

text \<open>\<open>Array.prototype.join\<close>.\<close>

fun join :: "string \<Rightarrow> string list \<Rightarrow> string" where
  "join sep [] = []"
| "join sep [x] = x"
| "join sep (x # y # ys) = x @ sep @ join sep (y # ys)"

text \<open>A JavaScript number that is an integer, as a template literal prints it.\<close>

definition decDigit :: "nat \<Rightarrow> char" where
  "decDigit d = ''0123456789'' ! d"

function show_nat :: "nat \<Rightarrow> string" where
  "show_nat n = (if n < 10 then [decDigit n] else show_nat (n div 10) @ [decDigit (n mod 10)])"
  by pat_completeness auto
termination
  by (relation "measure id") auto

declare show_nat.simps [simp del]

definition show_int :: "int \<Rightarrow> string" where
  "show_int i = (if i < 0 then ''-'' @ show_nat (nat (- i)) else show_nat (nat i))"

section \<open>The native device (tuntap.cc)\<close>

text \<open>
  \<open>TunDevice\<close> keeps a file descriptor, the interface name and the \<open>is_open\<close> flag. The
  kernel is a record of oracles, one per system call the class makes; \<open>apple\<close> is the
  compile-time choice of the utun branch. A call that ends in
  \<open>ThrowAsJavaScriptException\<close> is an \<open>Inl\<close>; a returned value is a \<open>napi_value\<close>,
  which includes the error objects that \<open>Read\<close> and \<open>Write\<close> return as values.
\<close>

record TunDevice =
  fd :: int
  name :: string
  is_open :: bool

datatype napi_value = Boolean bool | Number int | BufferV bytes | ErrorValue nat | Null

record kernel =
  apple :: bool
  sys_socket :: int
  sys_ctliocginfo :: int
  sys_connect :: "nat \<Rightarrow> int \<times> nat"
  sys_getsockopt_ifname :: "int \<times> string"
  stoi :: "string \<Rightarrow> int option"
  sys_open :: int
  sys_tunsetiff :: "int \<times> string"
  sys_read :: "nat \<Rightarrow> int \<times> nat \<times> bytes"
  sys_write :: "bytes \<Rightarrow> int \<times> nat"

text \<open>Constants of the system headers: \<open>EAGAIN\<close> and \<open>EWOULDBLOCK\<close> are one number on
  both systems (35 on Darwin, 11 on Linux); \<open>AF_INET6\<close> is 30 on Darwin, as the comment in
  \<open>Write\<close> says.\<close>

definition EBUSY :: nat where "EBUSY = 16"

definition EAGAIN :: "kernel \<Rightarrow> nat" where "EAGAIN k = (if apple k then 35 else 11)"

definition EWOULDBLOCK :: "kernel \<Rightarrow> nat" where "EWOULDBLOCK k = EAGAIN k"

definition AF_INET6 :: nat where "AF_INET6 = 30"

definition new_TunDevice :: "string \<Rightarrow> TunDevice" where
  "new_TunDevice nm = \<lparr>fd = -1, name = nm, is_open = False\<rparr>"

text \<open>The search \<open>for (sc.sc_unit = 1; sc.sc_unit < 255; sc.sc_unit++)\<close> of the utun branch:
  \<open>Inr unit\<close> is the unit at which the loop stopped (255 when none was free),
  \<open>Inl ()\<close> a connect error other than \<open>EBUSY\<close>.\<close>

function find_unit :: "kernel \<Rightarrow> nat \<Rightarrow> unit + nat" where
  "find_unit k unit =
     (if unit < 255 then
        (if fst (sys_connect k unit) = 0 then Inr unit
         else if snd (sys_connect k unit) \<noteq> EBUSY then Inl ()
         else find_unit k (unit + 1))
      else Inr unit)"
  by pat_completeness auto
termination
  by (relation "measure (\<lambda>(k, unit). 255 - unit)") auto

declare find_unit.simps [simp del]

definition utun_unit_of :: "kernel \<Rightarrow> string \<Rightarrow> int" where
  "utun_unit_of k nm =
     (if nm \<noteq> [] \<and> take 4 nm = ''utun'' then
        (case stoi k (drop 4 nm) of Some n \<Rightarrow> n + 1 | None \<Rightarrow> 0)
      else 0)"

definition failed_open :: "TunDevice \<Rightarrow> string \<Rightarrow> (js_error + bool) \<times> TunDevice" where
  "failed_open d msg = (Inl (Error msg), d\<lparr>fd := -1\<rparr>)"

definition TunDevice_Open :: "kernel \<Rightarrow> TunDevice \<Rightarrow> (js_error + bool) \<times> TunDevice" where
  "TunDevice_Open k d =
     (if is_open d then (Inr True, d)
      else if apple k then
        (if sys_socket k < 0 then
           (Inl (Error ''Failed to create control socket''), d\<lparr>fd := sys_socket k\<rparr>)
         else if sys_ctliocginfo k < 0 then failed_open d ''Failed to get utun control info''
         else if utun_unit_of k (name d) > 0 then
           (if fst (sys_connect k (nat (utun_unit_of k (name d)))) < 0 then
              failed_open d ''Failed to connect to utun control socket with specified unit''
            else if fst (sys_getsockopt_ifname k) < 0 then
              failed_open d ''Failed to get utun interface name''
            else (Inr True,
                  d\<lparr>fd := sys_socket k, name := snd (sys_getsockopt_ifname k), is_open := True\<rparr>))
         else
           (case find_unit k 1 of
              Inl _ \<Rightarrow> failed_open d ''Failed to connect to utun control socket''
            | Inr unit \<Rightarrow>
                if unit \<ge> 255 then failed_open d ''Could not find an available utun device''
                else if fst (sys_getsockopt_ifname k) < 0 then
                  failed_open d ''Failed to get utun interface name''
                else (Inr True,
                      d\<lparr>fd := sys_socket k, name := snd (sys_getsockopt_ifname k),
                        is_open := True\<rparr>)))
      else
        (if sys_open k < 0 then
           (Inl (Error ''Failed to open /dev/net/tun''), d\<lparr>fd := sys_open k\<rparr>)
         else if fst (sys_tunsetiff k) < 0 then failed_open d ''Failed to configure TUN device''
         else (Inr True,
               d\<lparr>fd := sys_open k, name := snd (sys_tunsetiff k), is_open := True\<rparr>)))"

text \<open>\<open>Close\<close> always returns true; only the new state is kept.\<close>

definition TunDevice_Close :: "TunDevice \<Rightarrow> TunDevice" where
  "TunDevice_Close d = (if is_open d then d\<lparr>fd := -1, is_open := False\<rparr> else d)"

text \<open>
  \<open>Read\<close>: \<open>maxSize\<close> is the optional numeric argument, read with \<open>Uint32Value\<close>. The
  oracle \<open>sys_read k n\<close> gives the return value of \<open>read(fd, buf, n)\<close>, the value of
  \<open>errno\<close> after it and the contents of the buffer after it.
\<close>

definition TunDevice_Read :: "kernel \<Rightarrow> TunDevice \<Rightarrow> nat option \<Rightarrow> js_error + napi_value" where
  "TunDevice_Read k d maxSize =
     (if \<not> is_open d then Inl (Error ''Device not open'')
      else
        let buffer_size = (case maxSize of Some n \<Rightarrow> n mod 2 ^ 32 | None \<Rightarrow> 4096) in
        if apple k then
          (case sys_read k (buffer_size + 4) of (bytes_read, errno, tmp_buffer) \<Rightarrow>
             if bytes_read \<le> 0 then
               (if errno = EAGAIN k \<or> errno = EWOULDBLOCK k then Inr (BufferV [])
                else Inr (ErrorValue errno))
             else if bytes_read > 4 then Inr (BufferV (slice tmp_buffer 4 (nat bytes_read)))
             else Inr (BufferV []))
        else
          (case sys_read k buffer_size of (bytes_read, errno, data) \<Rightarrow>
             if bytes_read < 0 then
               (if errno = EAGAIN k \<or> errno = EWOULDBLOCK k then Inr (BufferV [])
                else Inr (ErrorValue errno))
             else Inr (BufferV (take (nat bytes_read) data))))"

text \<open>\<open>htonl\<close> followed by \<open>memcpy\<close>: the four bytes of a 32-bit value in network order.\<close>

definition htonl :: "nat \<Rightarrow> bytes" where
  "htonl v = [of_nat (v div 2 ^ 24), of_nat (v div 2 ^ 16), of_nat (v div 2 ^ 8), of_nat v]"

text \<open>\<open>Write\<close>, for an argument that is a buffer.\<close>

definition TunDevice_Write :: "kernel \<Rightarrow> TunDevice \<Rightarrow> bytes \<Rightarrow> js_error + napi_value" where
  "TunDevice_Write k d data =
     (if \<not> is_open d then Inl (Error ''Device not open'')
      else if apple k then
        (let tmp_buffer = htonl AF_INET6 @ data in
         case sys_write k tmp_buffer of (bytes_written, errno) \<Rightarrow>
           if bytes_written < 0 then Inr (ErrorValue errno)
           else Inr (Number (if bytes_written > 4 then bytes_written - 4 else 0)))
      else
        (case sys_write k data of (bytes_written, errno) \<Rightarrow>
           if bytes_written < 0 then Inr (ErrorValue errno)
           else Inr (Number bytes_written)))"

section \<open>The TypeScript wrapper (TunTap.ts)\<close>

record TunTap =
  device :: TunDevice
  isOpen :: bool

definition new_TunTap :: "string \<Rightarrow> TunTap" where
  "new_TunTap nm = \<lparr>device = new_TunDevice nm, isOpen = False\<rparr>"

definition TunTap_open :: "kernel \<Rightarrow> TunTap \<Rightarrow> (js_error + bool) \<times> TunTap" where
  "TunTap_open k t =
     (if \<not> isOpen t then
        (case TunDevice_Open k (device t) of
           (Inl e, d) \<Rightarrow> (Inl e, t\<lparr>device := d\<rparr>)
         | (Inr b, d) \<Rightarrow> (Inr b, t\<lparr>device := d, isOpen := b\<rparr>))
      else (Inr (isOpen t), t))"

definition TunTap_close :: "TunTap \<Rightarrow> bool \<times> TunTap" where
  "TunTap_close t =
     (if isOpen t then (True, t\<lparr>device := TunDevice_Close (device t), isOpen := False\<rparr>)
      else (True, t))"

definition TunTap_read :: "kernel \<Rightarrow> TunTap \<Rightarrow> nat \<Rightarrow> js_error + napi_value" where
  "TunTap_read k t maxSize =
     (if \<not> isOpen t then Inl (Error ''Device not open'')
      else TunDevice_Read k (device t) (Some maxSize))"

definition TunTap_write :: "kernel \<Rightarrow> TunTap \<Rightarrow> bytes \<Rightarrow> js_error + napi_value" where
  "TunTap_write k t data =
     (if \<not> isOpen t then Inl (Error ''Device not open'')
      else TunDevice_Write k (device t) data)"




section \<open>The tunnel manager (tunnel.ts)\<close>

subsection \<open>Address formatting\<close>

text \<open>The loop \<open>for (let i = 0; i < 16; i += 2) parts.push(buffer.readUInt16BE(i).toString(16))\<close>.\<close>

function formatLoop :: "bytes \<Rightarrow> nat \<Rightarrow> string list \<Rightarrow> js_error + string list" where
  "formatLoop b i parts =
     (if i < 16 then
        (case readUInt16BE b i of
           Inl e \<Rightarrow> Inl e
         | Inr v \<Rightarrow> formatLoop b (i + 2) (parts @ [toString16 v]))
      else Inr parts)"
  by pat_completeness auto
termination
  by (relation "measure (\<lambda>(b, i, parts). 16 - i)") auto

declare formatLoop.simps [simp del]

definition formatIPv6Address :: "bytes \<Rightarrow> js_error + string" where
  "formatIPv6Address b =
     (if length b \<noteq> 16 then Inr ''invalid-address''
      else (case formatLoop b 0 [] of Inl e \<Rightarrow> Inl e | Inr parts \<Rightarrow> Inr (join '':'' parts)))"

subsection \<open>Packet records, consumers and observable effects\<close>

datatype protocol = TCP | UDP

record PacketData =
  protocol :: protocol
  src :: string
  dst :: string
  sourcePort :: nat
  destPort :: nat
  payload :: bytes

text \<open>
  A registered \<open>PacketConsumer\<close> is foreign code: the model keeps its identity and whether
  its \<open>onPacket\<close> throws. What \<open>processBuffer\<close> does to the outside is a list of events:
  a packet handed to the interface by a \<open>write\<close> that returned, a record given to the
  listeners of the \<open>data\<close> event, a record given to a consumer, an error that was caught
  and logged.
\<close>

datatype consumer = Consumer (cid: nat) (throwing: bool)

datatype event =
    TunWrite bytes
  | EmitData PacketData
  | OnPacket nat PacketData
  | LogError string

definition notify :: "PacketData \<Rightarrow> consumer \<Rightarrow> event list" where
  "notify pd c =
     OnPacket (cid c) pd # (if throwing c then [LogError ''Error in packet consumer''] else [])"

definition publish :: "consumer list \<Rightarrow> PacketData \<Rightarrow> event list" where
  "publish cs pd = EmitData pd # concat (map (notify pd) cs)"

text \<open>A read inside the \<open>try\<close> block that throws lands in its \<open>catch\<close>.\<close>

definition caught :: "js_error \<Rightarrow> event list" where
  "caught e = [LogError ''Error writing to TUN'']"

text \<open>
  The \<open>try\<close> block of the loop body once the device is known to be set: the write to the
  interface, then the UDP and TCP branches.
\<close>

definition forwardPacket ::
  "kernel \<Rightarrow> TunTap \<Rightarrow> consumer list \<Rightarrow> bytes \<Rightarrow> string \<Rightarrow> string \<Rightarrow> byte \<Rightarrow> event list" where
  "forwardPacket k t cs packet sa da nextHeader =
     (case TunTap_write k t packet of
        Inl e \<Rightarrow> caught e
      | Inr bytesWritten \<Rightarrow>
          TunWrite packet #
          (if nextHeader = 17 then
             (let pl = drop 40 packet in
              if length pl < 8 then []
              else
                (case readUInt16BE pl 0 of
                   Inl e \<Rightarrow> caught e
                 | Inr sp \<Rightarrow>
                     (case readUInt16BE pl 2 of
                        Inl e \<Rightarrow> caught e
                      | Inr dp \<Rightarrow>
                          publish cs \<lparr>protocol = UDP, src = sa, dst = da, sourcePort = sp,
                                      destPort = dp, payload = drop 8 pl\<rparr>)))
           else if nextHeader = 6 then
             (let tcpHeaderStart = 40 in
              if length packet < tcpHeaderStart + 20 then []
              else
                (case readUInt16BE packet tcpHeaderStart of
                   Inl e \<Rightarrow> caught e
                 | Inr sp \<Rightarrow>
                     (case readUInt16BE packet (tcpHeaderStart + 2) of
                        Inl e \<Rightarrow> caught e
                      | Inr dp \<Rightarrow>
                          (case readUInt8 packet (tcpHeaderStart + 12) of
                             Inl e \<Rightarrow> caught e
                           | Inr dataOffsetByte \<Rightarrow>
                               (let tcpHeaderLength = unat (drop_bit 4 dataOffsetByte) * 4 in
                                if length packet < tcpHeaderStart + tcpHeaderLength then []
                                else
                                  publish cs \<lparr>protocol = TCP, src = sa, dst = da,
                                              sourcePort = sp, destPort = dp,
                                              payload = drop (tcpHeaderStart + tcpHeaderLength)
                                                          packet\<rparr>)))))
           else []))"

text \<open>The packets handed to the interface and the records given to the consumers.\<close>

fun writes :: "event list \<Rightarrow> bytes list" where
  "writes [] = []"
| "writes (TunWrite p # evs) = p # writes evs"
| "writes (e # evs) = writes evs"

fun records_of :: "nat \<Rightarrow> event list \<Rightarrow> PacketData list" where
  "records_of c [] = []"
| "records_of c (OnPacket c' pd # evs) =
     (if c' = c then pd # records_of c evs else records_of c evs)"
| "records_of c (e # evs) = records_of c evs"

fun published :: "event list \<Rightarrow> PacketData list" where
  "published [] = []"
| "published (EmitData pd # evs) = pd # published evs"
| "published (OnPacket c pd # evs) = pd # published evs"
| "published (e # evs) = published evs"

subsection \<open>The manager and the demultiplexer\<close>

record socket =
  destroyed :: bool

record TunnelManager =
  tun :: "TunTap option"
  cancelled :: bool
  readInterval :: "nat option"
  buffer :: bytes
  packetConsumers :: "consumer list"
  packetQueue :: "PacketData list"
  deviceConn :: "socket option"
  cleanupPromise :: "nat option"

definition new_TunnelManager :: TunnelManager where
  "new_TunnelManager =
     \<lparr>tun = None, cancelled = False, readInterval = None, buffer = [], packetConsumers = [],
      packetQueue = [], deviceConn = None, cleanupPromise = None\<rparr>"

text \<open>
  The \<open>while\<close> loop of \<open>processBuffer\<close>, with the offset and the events so far as loop state.
  The result is the offset at which the loop stopped, the events, and the exception that
  left the loop, if any (\<open>header\<close> has 40 bytes inside the loop, so \<open>header[0]\<close> and
  \<open>header[6]\<close> are defined).
\<close>

function processLoop ::
  "kernel \<Rightarrow> TunTap option \<Rightarrow> consumer list \<Rightarrow> bytes \<Rightarrow> nat \<Rightarrow> event list
     \<Rightarrow> nat \<times> event list \<times> js_error option" where
  "processLoop k tn cs buf offset acc =
     (if offset + 40 \<le> length buf then
        (let header = slice buf offset (offset + 40);
             version = drop_bit 4 (header ! 0) AND 0x0F
         in
           if version \<noteq> 6 then processLoop k tn cs buf (offset + 1) acc
           else
             (case readUInt16BE header 4 of
                Inl e \<Rightarrow> (offset, acc, Some e)
              | Inr payloadLength \<Rightarrow>
                  if offset + 40 + payloadLength > length buf then (offset, acc, None)
                  else
                    (let packet = slice buf offset (offset + 40 + payloadLength) in
                     case formatIPv6Address (slice packet 8 24) of
                       Inl e \<Rightarrow> (offset, acc, Some e)
                     | Inr sa \<Rightarrow>
                         (case formatIPv6Address (slice packet 24 40) of
                            Inl e \<Rightarrow> (offset, acc, Some e)
                          | Inr da \<Rightarrow>
                              (case tn of
                                 None \<Rightarrow>
                                   (offset,
                                    acc @ [LogError ''TUN device is null during packet processing''],
                                    None)
                               | Some t \<Rightarrow>
                                   processLoop k tn cs buf (offset + 40 + payloadLength)
                                     (acc @ forwardPacket k t cs packet sa da (header ! 6)))))))
      else (offset, acc, None))"
  by pat_completeness auto
termination
  by (relation "measure (\<lambda>(k, tn, cs, buf, offset, acc). length buf - offset)") auto

declare processLoop.simps [simp del]

definition processBuffer ::
  "kernel \<Rightarrow> TunnelManager \<Rightarrow> (js_error + unit) \<times> TunnelManager \<times> event list" where
  "processBuffer k m =
     (case processLoop k (tun m) (packetConsumers m) (buffer m) 0 [] of
        (offset, evs, Some e) \<Rightarrow> (Inl e, m, evs)
      | (offset, evs, None) \<Rightarrow>
          (Inr (), (if offset > 0 then m\<lparr>buffer := drop offset (buffer m)\<rparr> else m), evs))"

text \<open>The \<open>data\<close> listener that \<open>startForwarding\<close> installs on the stream.\<close>

definition onData :: "kernel \<Rightarrow> TunnelManager \<Rightarrow> bytes \<Rightarrow> TunnelManager \<times> event list" where
  "onData k m data =
     (if cancelled m then (m, [])
      else
        (case processBuffer k (m\<lparr>buffer := buffer m @ data\<rparr>) of
           (Inl e, m', evs) \<Rightarrow> (m', evs @ [LogError ''Error processing device data''])
         | (Inr u, m', evs) \<Rightarrow> (m', evs)))"


subsection \<open>Setup, forwarding and stop\<close>

record TunnelClientParameters =
  address :: string
  mtu :: int

record TunnelInfo =
  clientParameters :: TunnelClientParameters
  serverAddress :: string
  serverRSDPort :: "nat option"

definition addPacketConsumer :: "TunnelManager \<Rightarrow> consumer \<Rightarrow> TunnelManager" where
  "addPacketConsumer m c =
     (if cid c \<in> cid ` set (packetConsumers m) then m
      else m\<lparr>packetConsumers := packetConsumers m @ [c]\<rparr>)"

definition removePacketConsumer :: "TunnelManager \<Rightarrow> consumer \<Rightarrow> TunnelManager" where
  "removePacketConsumer m c =
     m\<lparr>packetConsumers := filter (\<lambda>x. cid x \<noteq> cid c) (packetConsumers m)\<rparr>"




text \<open>One tick of the poller of \<open>startTunReadLoop\<close>: the bytes written to the stream, if any.\<close>

definition tunReadTick :: "kernel \<Rightarrow> TunnelManager \<Rightarrow> socket \<Rightarrow> bytes list" where
  "tunReadTick k m conn =
     (if cancelled m then []
      else
        (case tun m of
           None \<Rightarrow> []
         | Some t \<Rightarrow>
             (case TunTap_read k t 16384 of
                Inr (BufferV data) \<Rightarrow>
                  if length data > 0 \<and> \<not> destroyed conn then [data] else []
              | Inr v \<Rightarrow> []
              | Inl e \<Rightarrow> [])))"

text \<open>
  \<open>_performStop\<close>, with what it does to the outside as a list of effects. The function has
  no \<open>await\<close>: it runs to its end within the call of \<open>stop\<close>.
\<close>

datatype stop_effect = ClearInterval nat | DestroySocket | RemoveAllListeners | CloseTun | Unregister

definition performStop :: "TunnelManager \<Rightarrow> TunnelManager \<times> stop_effect list" where
  "performStop mgr =
     (let m1 = mgr\<lparr>cancelled := True\<rparr>;
          e2 = (case readInterval m1 of Some i \<Rightarrow> [ClearInterval i] | None \<Rightarrow> []);
          m2 = m1\<lparr>readInterval := None\<rparr>;
          stream_live = (case deviceConn m2 of Some s \<Rightarrow> \<not> destroyed s | None \<Rightarrow> False);
          e3 = (if stream_live then [DestroySocket] else []);
          m3 = (if stream_live then m2\<lparr>deviceConn := None\<rparr> else m2);
          m4 = m3\<lparr>buffer := []\<rparr>;
          m5 = m4\<lparr>packetConsumers := []\<rparr>;
          e6 = (case tun m5 of Some t \<Rightarrow> [CloseTun] | None \<Rightarrow> []);
          m6 = m5\<lparr>tun := None\<rparr>
      in (m6, e2 @ e3 @ [RemoveAllListeners] @ e6 @ [Unregister]))"

text \<open>
  \<open>stop\<close>: the promise it returns adopts the completion of \<open>cleanupPromise\<close>, so the model
  returns that completion; \<open>fresh\<close> is the identity of the promise that a run of
  \<open>_performStop\<close> creates.
\<close>

definition stop :: "nat \<Rightarrow> TunnelManager \<Rightarrow> nat \<times> TunnelManager \<times> stop_effect list" where
  "stop fresh m =
     (case cleanupPromise m of
        Some p \<Rightarrow> (p, m, [])
      | None \<Rightarrow>
          (case performStop m of (m', effs) \<Rightarrow> (fresh, m'\<lparr>cleanupPromise := Some fresh\<rparr>, effs)))"







subsection \<open>The pull stream (getPacketStream)\<close>

text \<open>
  The asynchronous generator as a state machine. \<open>NotStarted\<close>: the body has not run (it
  starts at the first \<open>next()\<close>); \<open>AtYield\<close>: suspended at a \<open>yield\<close>; \<open>Awaiting\<close>: inside
  \<open>yield await new Promise(...)\<close> with the promise pending; \<open>Finished\<close>: the body has
  returned and the \<open>finally\<close> block has run. \<open>resolver\<close> says whether the closure variable
  is set, \<open>requests\<close> counts the calls of \<open>next()\<close> that are not answered yet, \<open>yielded\<close>
  are the values handed to the caller so far.
\<close>

datatype phase = NotStarted | AtYield | Awaiting | Finished

record packet_stream =
  phase :: phase
  queue :: "PacketData list"
  resolver :: bool
  consumer_id :: nat
  yielded :: "PacketData list"
  requests :: nat

definition new_stream :: "nat \<Rightarrow> packet_stream" where
  "new_stream c =
     \<lparr>phase = NotStarted, queue = [], resolver = False, consumer_id = c, yielded = [],
      requests = 0\<rparr>"

definition own_consumer :: "packet_stream \<Rightarrow> consumer" where
  "own_consumer st = Consumer (consumer_id st) False"

text \<open>The \<open>finally\<close> block and the end of the generator: every pending request is answered
  with \<open>done\<close>.\<close>

definition finish :: "TunnelManager \<times> packet_stream \<Rightarrow> TunnelManager \<times> packet_stream" where
  "finish sys =
     (case sys of (m, st) \<Rightarrow>
        (removePacketConsumer m (own_consumer st), st\<lparr>phase := Finished, requests := 0\<rparr>))"

text \<open>From the test of \<open>while (!this.cancelled)\<close> to the next suspension.\<close>

definition loop_head :: "TunnelManager \<times> packet_stream \<Rightarrow> TunnelManager \<times> packet_stream" where
  "loop_head sys =
     (case sys of (m, st) \<Rightarrow>
        if cancelled m then finish (m, st)
        else
          (case queue st of
             p # q \<Rightarrow>
               (m, st\<lparr>yielded := yielded st @ [p], queue := q, requests := requests st - 1,
                      phase := AtYield\<rparr>)
           | [] \<Rightarrow> (m, st\<lparr>phase := Awaiting, resolver := True\<rparr>)))"

definition resume :: "TunnelManager \<times> packet_stream \<Rightarrow> TunnelManager \<times> packet_stream" where
  "resume sys =
     (case sys of (m, st) \<Rightarrow>
        (case phase st of
           NotStarted \<Rightarrow> loop_head (addPacketConsumer m (own_consumer st), st)
         | AtYield \<Rightarrow> loop_head (m, st)
         | Awaiting \<Rightarrow> (m, st)
         | Finished \<Rightarrow> (m, st)))"

definition resumable :: "packet_stream \<Rightarrow> bool" where
  "resumable st = (requests st > 0 \<and> (phase st = NotStarted \<or> phase st = AtYield))"

text \<open>The generator runs as long as a request is pending and it is not blocked.\<close>

function pump :: "TunnelManager \<times> packet_stream \<Rightarrow> TunnelManager \<times> packet_stream" where
  "pump sys = (if resumable (snd sys) then pump (resume sys) else sys)"
  by pat_completeness auto
termination
proof (relation "measure (\<lambda>sys. 2 * requests (snd sys) + (if phase (snd sys) = NotStarted \<or> phase (snd sys) = AtYield then 1 else 0))")
  show "wf (measure (\<lambda>sys. 2 * requests (snd sys) + (if phase (snd sys) = NotStarted \<or> phase (snd sys) = AtYield then 1 else 0)))"
    by simp
next
  fix sys :: "TunnelManager \<times> packet_stream"
  assume "resumable (snd sys)"
  then show "(resume sys, sys) \<in> measure (\<lambda>sys. 2 * requests (snd sys) + (if phase (snd sys) = NotStarted \<or> phase (snd sys) = AtYield then 1 else 0))"
    by (cases sys) (auto simp: resumable_def resume_def loop_head_def finish_def split: list.splits if_splits)
qed

declare pump.simps [simp del]

definition next_call :: "TunnelManager \<times> packet_stream \<Rightarrow> TunnelManager \<times> packet_stream" where
  "next_call sys =
     (case sys of (m, st) \<Rightarrow>
        if phase st = Finished then (m, st)
        else pump (m, st\<lparr>requests := requests st + 1\<rparr>))"

text \<open>\<open>return()\<close>, as a \<open>for await\<close> loop calls it on leaving: it takes effect when the
  generator is suspended at a \<open>yield\<close> or has not started, and waits otherwise.\<close>

definition return_call :: "TunnelManager \<times> packet_stream \<Rightarrow> TunnelManager \<times> packet_stream" where
  "return_call sys =
     (case sys of (m, st) \<Rightarrow>
        (case phase st of
           NotStarted \<Rightarrow> (m, st\<lparr>phase := Finished, requests := 0\<rparr>)
         | AtYield \<Rightarrow> finish (m, st)
         | Awaiting \<Rightarrow> (m, st)
         | Finished \<Rightarrow> (m, st)))"

text \<open>
  \<open>onPacket\<close> of the private consumer. When the resolver is set the awaited promise is
  resolved, the resolver is cleared, and the generator goes on to \<open>yield\<close> the value (the
  resumption, which the runtime schedules after the current call, is taken at once).
\<close>

definition stream_onPacket ::
  "TunnelManager \<times> packet_stream \<Rightarrow> PacketData \<Rightarrow> TunnelManager \<times> packet_stream" where
  "stream_onPacket sys p =
     (case sys of (m, st) \<Rightarrow>
        if resolver st then
          pump (m, st\<lparr>resolver := False, yielded := yielded st @ [p],
                     requests := requests st - 1, phase := AtYield\<rparr>)
        else (m, st\<lparr>queue := queue st @ [p]\<rparr>))"

datatype stream_event = NextCall | ReturnCall | DataChunk bytes | StopCall

definition stream_step ::
  "kernel \<Rightarrow> TunnelManager \<times> packet_stream \<Rightarrow> stream_event \<Rightarrow> TunnelManager \<times> packet_stream" where
  "stream_step k sys ev =
     (case sys of (m, st) \<Rightarrow>
        (case ev of
           NextCall \<Rightarrow> next_call (m, st)
         | ReturnCall \<Rightarrow> return_call (m, st)
         | DataChunk data \<Rightarrow>
             (case onData k m data of
                (m', evs) \<Rightarrow> foldl stream_onPacket (m', st) (records_of (consumer_id st) evs))
         | StopCall \<Rightarrow> (fst (snd (stop 0 m)), st)))"

definition stream_run ::
  "kernel \<Rightarrow> TunnelManager \<times> packet_stream \<Rightarrow> stream_event list \<Rightarrow> TunnelManager \<times> packet_stream" where
  "stream_run k sys evs = foldl (stream_step k) sys evs"

subsection \<open>The handshake (exchangeCoreTunnelParameters)\<close>

definition requestJSON :: string where
  \<open>requestJSON = ''{"type":"clientHandshakeRequest","mtu":16000}''\<close>

text \<open>
  The message that \<open>exchangeCoreTunnelParameters\<close> builds from the bytes of the JSON text:
  \<open>Buffer.concat([magic, length, jsonBuffer])\<close>, where \<open>writeUInt16BE\<close> throws when the
  length does not fit.
\<close>

definition frame :: "bytes \<Rightarrow> js_error + bytes" where
  "frame jsonBuffer =
     (case writeUInt16BE (length jsonBuffer) of
        Inl e \<Rightarrow> Inl e
      | Inr len \<Rightarrow> Inr (Buffer_from ''CDTunnel'' @ len @ jsonBuffer))"

text \<open>
  The promise and the closure of \<open>exchangeCoreTunnelParameters\<close>: the accumulated bytes,
  which of the three stream listeners are registered, the armed timer with its delay in
  milliseconds, what was written to the socket, and an exception that left a listener.
  \<open>JSON.parse(payload.toString())\<close> is a parameter \<open>parse\<close>, \<open>None\<close> when it throws.
\<close>

datatype 'j settled = Pending | Resolved 'j | Rejected js_error

record 'j handshake =
  hbuffer :: bytes
  onData_registered :: bool
  onError_registered :: bool
  onEnd_registered :: bool
  timeoutHandle :: "nat option"
  promise :: "'j settled"
  written :: "bytes list"
  uncaught :: "js_error option"

definition exchangeCoreTunnelParameters :: "'j handshake" where
  "exchangeCoreTunnelParameters =
     (case frame (Buffer_from requestJSON) of
        Inl e \<Rightarrow>
          \<lparr>hbuffer = [], onData_registered = False, onError_registered = False,
           onEnd_registered = False, timeoutHandle = None, promise = Rejected e, written = [],
           uncaught = None\<rparr>
      | Inr message \<Rightarrow>
          \<lparr>hbuffer = [], onData_registered = True, onError_registered = True,
           onEnd_registered = True, timeoutHandle = Some 30000, promise = Pending,
           written = [message], uncaught = None\<rparr>)"

definition cleanup :: "'j handshake \<Rightarrow> 'j handshake" where
  "cleanup s =
     s\<lparr>onData_registered := False, onError_registered := False, onEnd_registered := False,
       timeoutHandle := None\<rparr>"

text \<open>Settling a promise a second time does nothing.\<close>

definition resolve :: "'j handshake \<Rightarrow> 'j \<Rightarrow> 'j handshake" where
  "resolve s v = (if promise s = Pending then s\<lparr>promise := Resolved v\<rparr> else s)"

definition reject :: "'j handshake \<Rightarrow> js_error \<Rightarrow> 'j handshake" where
  "reject s e = (if promise s = Pending then s\<lparr>promise := Rejected e\<rparr> else s)"

definition handleData :: "(bytes \<Rightarrow> 'j option) \<Rightarrow> 'j handshake \<Rightarrow> bytes \<Rightarrow> 'j handshake" where
  "handleData parse s0 data =
     (let s = s0\<lparr>hbuffer := hbuffer s0 @ data\<rparr> in
      if length (hbuffer s) < 10 then s
      else if slice (hbuffer s) 0 8 \<noteq> Buffer_from ''CDTunnel'' then
        reject (cleanup s) (Error ''Invalid packet format'')
      else
        (case readUInt16BE (hbuffer s) 8 of
           Inl e \<Rightarrow> s\<lparr>uncaught := Some e\<rparr>
         | Inr payloadLength \<Rightarrow>
             (let totalLength = 8 + 2 + payloadLength in
              if length (hbuffer s) \<ge> totalLength then
                (case parse (slice (hbuffer s) 10 totalLength) of
                   Some response \<Rightarrow> resolve (cleanup s) response
                 | None \<Rightarrow> reject (cleanup s) (Error ''Invalid JSON response''))
              else s)))"

definition handleError :: "'j handshake \<Rightarrow> js_error \<Rightarrow> 'j handshake" where
  "handleError s err = reject (cleanup s) err"

definition handleEnd :: "'j handshake \<Rightarrow> 'j handshake" where
  "handleEnd s =
     reject (cleanup s) (Error ''Connection closed before receiving complete response'')"

definition onTimeout :: "'j handshake \<Rightarrow> 'j handshake" where
  "onTimeout s = reject (cleanup s) (Error ''Tunnel handshake timeout'')"

text \<open>What the event loop can deliver: a listener runs only while it is registered, the
  timer only while it is armed.\<close>

datatype sock_event = Data bytes | SockError js_error | End | Timeout

definition deliver :: "(bytes \<Rightarrow> 'j option) \<Rightarrow> 'j handshake \<Rightarrow> sock_event \<Rightarrow> 'j handshake" where
  "deliver parse s ev =
     (case ev of
        Data d \<Rightarrow> if onData_registered s then handleData parse s d else s
      | SockError e \<Rightarrow> if onError_registered s then handleError s e else s
      | End \<Rightarrow> if onEnd_registered s then handleEnd s else s
      | Timeout \<Rightarrow> if timeoutHandle s \<noteq> None then onTimeout s else s)"

definition deliver_all :: "(bytes \<Rightarrow> 'j option) \<Rightarrow> 'j handshake \<Rightarrow> sock_event list \<Rightarrow> 'j handshake" where
  "deliver_all parse s evs = foldl (deliver parse) s evs"

section \<open>Notions of the specification\<close>

definition valid_datagram :: "bytes \<Rightarrow> bool" where
  "valid_datagram d \<longleftrightarrow>
     40 \<le> length d \<and> drop_bit 4 (d ! 0) = 6 \<and> unat (d ! 4) * 256 + unat (d ! 5) = length d - 40"


definition be16 :: "bytes \<Rightarrow> nat \<Rightarrow> nat" where
  "be16 b i = unat (b ! i) * 256 + unat (b ! (i + 1))"

definition groups :: "bytes \<Rightarrow> nat list" where
  "groups b = [be16 b 0, be16 b 2, be16 b 4, be16 b 6, be16 b 8, be16 b 10, be16 b 12, be16 b 14]"


definition digitVal :: "char \<Rightarrow> nat" where
  "digitVal c = length (takeWhile (\<lambda>x. x \<noteq> c) ''0123456789abcdef'')"

definition hexval :: "string \<Rightarrow> nat" where
  "hexval s = foldl (\<lambda>a c. a * 16 + digitVal c) 0 s"

definition is_hex_group :: "nat \<Rightarrow> string \<Rightarrow> bool" where
  "is_hex_group n s \<longleftrightarrow>
     s \<noteq> [] \<and> set s \<subseteq> set ''0123456789abcdef'' \<and> (hd s = CHR ''0'' \<longrightarrow> s = ''0'') \<and>
     hexval s = n"

definition is_address_text :: "bytes \<Rightarrow> string \<Rightarrow> bool" where
  "is_address_text a s \<longleftrightarrow>
     length a = 16 \<and> (\<exists>gs. s = join '':'' gs \<and> list_all2 is_hex_group (groups a) gs)"

text \<open>The error kinds of the specification, by the message of the rejection.\<close>

datatype error_kind = ProtocolError | HandshakeTimeout | OtherError

definition kind_of :: "js_error \<Rightarrow> error_kind" where
  "kind_of e =
     (if e = Error ''Invalid packet format'' \<or> e = Error ''Invalid JSON response'' \<or>
         e = Error ''Connection closed before receiving complete response'' then ProtocolError
      else if e = Error ''Tunnel handshake timeout'' then HandshakeTimeout
      else OtherError)"

definition live :: "'j handshake \<Rightarrow> bool" where
  "live s \<longleftrightarrow> promise s = Pending \<and> onData_registered s \<and> onError_registered s \<and>
     onEnd_registered s \<and> timeoutHandle s \<noteq> None"

definition cleaned :: "'j handshake \<Rightarrow> bool" where
  "cleaned s \<longleftrightarrow> \<not> onData_registered s \<and> \<not> onError_registered s \<and> \<not> onEnd_registered s \<and>
     timeoutHandle s = None"


text \<open>What does hold of the handle: a closed handle is not open, the wrapper's flag implies
  the device's, and reads and writes on a handle that is not open throw.\<close>

definition handle_ok :: "TunTap \<Rightarrow> bool" where
  "handle_ok t = (if isOpen t then is_open (device t) else True)"

section \<open>Auxiliary notions of the proofs\<close>

definition loop_body ::
  "kernel \<Rightarrow> TunTap option \<Rightarrow> consumer list \<Rightarrow> bytes \<Rightarrow> nat
     \<Rightarrow> (event list \<times> js_error option) + (nat \<times> event list)" where
  "loop_body k tn cs buf offset =
     (if offset + 40 \<le> length buf then
        (let header = slice buf offset (offset + 40);
             version = drop_bit 4 (header ! 0) AND 0x0F
         in
           if version \<noteq> 6 then Inr (offset + 1, [])
           else
             (case readUInt16BE header 4 of
                Inl e \<Rightarrow> Inl ([], Some e)
              | Inr payloadLength \<Rightarrow>
                  if offset + 40 + payloadLength > length buf then Inl ([], None)
                  else
                    (let packet = slice buf offset (offset + 40 + payloadLength) in
                     case formatIPv6Address (slice packet 8 24) of
                       Inl e \<Rightarrow> Inl ([], Some e)
                     | Inr sa \<Rightarrow>
                         (case formatIPv6Address (slice packet 24 40) of
                            Inl e \<Rightarrow> Inl ([], Some e)
                          | Inr da \<Rightarrow>
                              (case tn of
                                 None \<Rightarrow>
                                   Inl ([LogError ''TUN device is null during packet processing''],
                                    None)
                               | Some t \<Rightarrow>
                                   Inr (offset + 40 + payloadLength,
                                     forwardPacket k t cs packet sa da (header ! 6)))))))
      else Inl ([], None))"

definition prepend :: "event list \<Rightarrow> nat \<times> event list \<times> js_error option \<Rightarrow> nat \<times> event list \<times> js_error option" where
  "prepend acc r = (case r of (off, evs, e) \<Rightarrow> (off, acc @ evs, e))"

definition shift :: "nat \<Rightarrow> nat \<times> event list \<times> js_error option \<Rightarrow> nat \<times> event list \<times> js_error option" where
  "shift n r = (case r of (off, evs, e) \<Rightarrow> (n + off, evs, e))"

definition fmt :: "bytes \<Rightarrow> string" where
  "fmt b = (if length b \<noteq> 16 then ''invalid-address'' else join '':'' (map toString16 (groups b)))"

definition emit :: "kernel \<Rightarrow> TunTap \<Rightarrow> consumer list \<Rightarrow> bytes \<Rightarrow> event list" where
  "emit k t cs packet =
     forwardPacket k t cs packet (fmt (slice packet 8 24)) (fmt (slice packet 24 40)) (packet ! 6)"

definition framed :: "bytes \<Rightarrow> bytes" where
  "framed body =
     Buffer_from ''CDTunnel'' @ [of_nat (length body div 256), of_nat (length body mod 256)] @ body"

definition inv_hs :: "'j handshake \<Rightarrow> bool" where
  "inv_hs s \<longleftrightarrow> live s \<or> (cleaned s \<and> promise s \<noteq> Pending)"

section \<open>Concrete devices, packets and sessions\<close>

definition demo_kernel :: kernel where
  "demo_kernel = \<lparr>apple = True, sys_socket = 3, sys_ctliocginfo = 0, sys_connect = (\<lambda>u. (0, 0)),
         sys_getsockopt_ifname = (0, ''utun0''), stoi = (\<lambda>s. None), sys_open = 3,
         sys_tunsetiff = (0, ''tun0''), sys_read = (\<lambda>n. (-1, 35, [])),
         sys_write = (\<lambda>b. (int (length b), 0))\<rparr>"

definition demo_tun :: TunTap where
  "demo_tun = \<lparr>device = \<lparr>fd = 3, name = ''utun0'', is_open = True\<rparr>, isOpen = True\<rparr>"

definition udp48 :: bytes where
  "udp48 = [0x60, 0, 0, 0, 0, 8, 17, 64,
            0xfd, 0, 0, 0, 0, 0, 0, 0, 0, 0, 0, 0, 0, 0, 0, 2,
            0xfd, 0, 0, 0, 0, 0, 0, 0, 0, 0, 0, 0, 0, 0, 0, 1,
            0x04, 0xD2, 0x16, 0x2E, 0, 8, 0, 0]"

definition demo_manager :: TunnelManager where
  "demo_manager = new_TunnelManager\<lparr>tun := Some demo_tun, packetConsumers := [Consumer 7 False, Consumer 9 True]\<rparr>"

definition demo_record :: PacketData where
  "demo_record = \<lparr>protocol = UDP, src = ''fd00:0:0:0:0:0:0:2'', dst = ''fd00:0:0:0:0:0:0:1'',
           sourcePort = 1234, destPort = 5678, payload = []\<rparr>"

definition identity_codec :: "bytes \<Rightarrow> bytes option" where
  "identity_codec b = Some b"

definition no_json :: "bytes \<Rightarrow> unit option" where
  "no_json b = None"

definition nine_X :: bytes where
  "nine_X = [0x58, 0x58, 0x58, 0x58, 0x58, 0x58, 0x58, 0x58, 0x58]"

definition blocked_stream :: "TunnelManager \<times> packet_stream" where
  "blocked_stream =
     stream_run demo_kernel (new_TunnelManager\<lparr>tun := Some demo_tun\<rparr>, new_stream 7)
       [NextCall, StopCall]"

definition kernel_eof :: kernel where
  "kernel_eof = demo_kernel\<lparr>sys_read := (\<lambda>n. (0, 0, replicate n 0))\<rparr>"

definition kernel_short_write :: kernel where
  "kernel_short_write = demo_kernel\<lparr>sys_write := (\<lambda>b. (2, 0))\<rparr>"

definition kernel_packet :: kernel where
  "kernel_packet = demo_kernel\<lparr>sys_read := (\<lambda>n. (52, 0, [0, 0, 0, 30] @ udp48 @ replicate (n - 52) 0))\<rparr>"




section \<open>The demultiplexer\<close>

lemma length_slice: "length (slice b s e) = min (e - s) (length b - s)"
  by (simp add: slice_def)

lemma formatLoop_16:
  "length b = 16 \<Longrightarrow> formatLoop b 0 [] = Inr (map toString16 (groups b))"
  by (simp add: formatLoop.simps readUInt16BE_def groups_def be16_def del: add_2_eq_Suc' add_2_eq_Suc)

lemma formatIPv6Address_total:
  "formatIPv6Address b = Inr (if length b \<noteq> 16 then ''invalid-address'' else join '':'' (map toString16 (groups b)))"
  by (simp add: formatIPv6Address_def formatLoop_16)


lemma nibble_mask: "drop_bit 4 (x :: byte) AND 0x0F = drop_bit 4 x"
proof -
  have m: "(0x0F :: byte) = mask 4" by (simp add: mask_eq_exp_minus_1)
  have "drop_bit 4 x AND mask 4 = take_bit 4 (drop_bit 4 x)"
    by (simp add: take_bit_eq_mask)
  also have "\<dots> = drop_bit 4 (take_bit 8 x)"
    by (simp add: take_bit_drop_bit)
  also have "\<dots> = drop_bit 4 x" by (simp add: take_bit_word_eq_self)
  finally show ?thesis using m by simp
qed

lemma processLoop_unfold:
  "processLoop k tn cs buf offset acc =
     (case loop_body k tn cs buf offset of
        Inl (evs, e) \<Rightarrow> (offset, acc @ evs, e)
      | Inr (off', evs) \<Rightarrow> processLoop k tn cs buf off' (acc @ evs))"
  apply (subst processLoop.simps)
  apply (simp add: loop_body_def Let_def split: sum.splits option.splits)
  done

lemma prepend_prepend: "prepend a (prepend b r) = prepend (a @ b) r"
  by (cases r) (simp add: prepend_def)

lemma prepend_Nil: "prepend [] r = r"
  by (cases r) (simp add: prepend_def)

lemma loop_body_progress:
  "loop_body k tn cs buf offset = Inr (off', evs) \<Longrightarrow> offset < off' \<and> off' \<le> length buf"
  by (auto simp: loop_body_def Let_def split: if_splits sum.splits option.splits)

lemma processLoop_acc:
  "processLoop k tn cs buf offset acc = prepend acc (processLoop k tn cs buf offset [])"
proof (induction "length buf - offset" arbitrary: offset acc rule: less_induct)
  case less
  show ?case
  proof (cases "loop_body k tn cs buf offset")
    case (Inl a)
    then show ?thesis
      by (cases a) (simp add: processLoop_unfold [of k tn cs buf offset] prepend_def)
  next
    case (Inr b)
    obtain off' evs where b: "b = (off', evs)" by (cases b)
    from Inr b have p: "offset < off'" "off' \<le> length buf"
      using loop_body_progress by blast+
    then have d: "length buf - off' < length buf - offset" by arith
    have "processLoop k tn cs buf offset acc = processLoop k tn cs buf off' (acc @ evs)"
      using Inr b by (simp add: processLoop_unfold [of k tn cs buf offset])
    also have "\<dots> = prepend (acc @ evs) (processLoop k tn cs buf off' [])"
      using less [OF d] .
    also have "\<dots> = prepend acc (prepend evs (processLoop k tn cs buf off' []))"
      by (simp add: prepend_prepend)
    also have "prepend evs (processLoop k tn cs buf off' []) = processLoop k tn cs buf off' ([] @ evs)"
      using less [OF d, of evs] by simp
    also have "\<dots> = processLoop k tn cs buf offset []"
      using Inr b by (simp add: processLoop_unfold [of k tn cs buf offset])
    finally show ?thesis .
  qed
qed

lemma formatIPv6Address_fmt: "formatIPv6Address b = Inr (fmt b)"
  by (simp add: formatIPv6Address_total fmt_def)

lemma slice_nth: "s + i < length b \<Longrightarrow> i < e - s \<Longrightarrow> slice b s e ! i = b ! (s + i)"
  by (simp add: slice_def)

lemma slice_0_nth: "i < length b \<Longrightarrow> i < e \<Longrightarrow> slice b 0 e ! i = b ! i"
  by (simp add: slice_def)

lemma header_read:
  assumes "offset + 40 \<le> length buf"
  shows "readUInt16BE (slice buf offset (offset + 40)) 4 = Inr (be16 buf (offset + 4))"
proof -
  have "slice buf offset (offset + 40) ! 4 = buf ! (offset + 4)"
    using assms by (intro slice_nth) auto
  moreover have "slice buf offset (offset + 40) ! 5 = buf ! (offset + 5)"
    using assms by (intro slice_nth) auto
  moreover have "length (slice buf offset (offset + 40)) = 40"
    using assms by (simp add: length_slice)
  ultimately show ?thesis
    by (simp add: readUInt16BE_def be16_def add.assoc add.commute)
qed

lemma loop_body_eq:
  "loop_body k tn cs buf offset =
     (if offset + 40 \<le> length buf then
        (if drop_bit 4 (buf ! offset) \<noteq> 6 then Inr (offset + 1, [])
         else if offset + 40 + be16 buf (offset + 4) > length buf then Inl ([], None)
         else
           (case tn of
              None \<Rightarrow> Inl ([LogError ''TUN device is null during packet processing''], None)
            | Some t \<Rightarrow>
                Inr (offset + 40 + be16 buf (offset + 4),
                     emit k t cs (slice buf offset (offset + 40 + be16 buf (offset + 4))))))
      else Inl ([], None))"
proof (cases "offset + 40 \<le> length buf")
  case False
  then show ?thesis by (simp add: loop_body_def)
next
  case True
  have h0: "slice buf offset (offset + 40) ! 0 = buf ! offset"
    using True slice_nth [of offset 0 buf "offset + 40"] by simp
  have h6: "slice buf offset (offset + 40) ! 6 = buf ! (offset + 6)"
    using True by (intro slice_nth) auto
  have p6: "\<And>p. offset + 40 + p \<le> length buf \<Longrightarrow> slice buf offset (offset + 40 + p) ! 6 = buf ! (offset + 6)"
    by (intro slice_nth) auto
  show ?thesis
    unfolding loop_body_def
    using True
    by (simp add: Let_def h0 h6 p6 header_read formatIPv6Address_fmt nibble_mask emit_def not_less
          split: option.splits)
qed

lemma slice_drop: "slice (drop n b) s e = slice b (n + s) (n + e)"
  by (simp add: slice_def add.commute)


lemma be16_drop: "n + i + 1 < length b \<Longrightarrow> be16 (drop n b) i = be16 b (n + i)"
  by (simp add: be16_def add.assoc)

lemma be16_append: "i + 1 < length b \<Longrightarrow> be16 (b @ c) i = be16 b i"
  by (simp add: be16_def nth_append)

lemma loop_body_shift:
  "loop_body k tn cs buf (n + offset) =
     (case loop_body k tn cs (drop n buf) offset of
        Inl r \<Rightarrow> Inl r
      | Inr (off', evs) \<Rightarrow> Inr (n + off', evs))"
proof (cases "n + offset + 40 \<le> length buf")
  case False
  then show ?thesis by (simp add: loop_body_eq)
next
  case True
  then have g: "offset + 40 \<le> length buf - n" by arith
  have v: "drop n buf ! offset = buf ! (n + offset)"
    using True by simp
  have b: "be16 (drop n buf) (offset + 4) = be16 buf (n + offset + 4)"
    using True be16_drop [of n "offset + 4" buf] by (simp add: add.assoc)
  have c: "\<And>p. (length buf - n < offset + 40 + p) = (length buf < n + offset + 40 + p)"
    using True by arith
  have s: "\<And>p. slice (drop n buf) offset (offset + 40 + p) = slice buf (n + offset) (n + offset + 40 + p)"
    by (simp add: slice_drop add.assoc)
  show ?thesis
    unfolding loop_body_eq [of k tn cs buf "n + offset"] loop_body_eq [of k tn cs "drop n buf" offset]
    using True g
    by (simp add: v b c slice_drop add.assoc split: option.splits)
qed


lemma loop_body_Inl_Some:
  "loop_body k (Some t) cs b offset = Inl (evs, e) \<Longrightarrow> evs = [] \<and> e = None"
  by (auto simp: loop_body_eq split: if_splits)

lemma processLoop_shift:
  "processLoop k tn cs buf (n + offset) acc = shift n (processLoop k tn cs (drop n buf) offset acc)"
proof (induction "length buf - (n + offset)" arbitrary: offset acc rule: less_induct)
  case less
  show ?case
  proof (cases "loop_body k tn cs (drop n buf) offset")
    case (Inl a)
    then have "loop_body k tn cs buf (n + offset) = Inl a"
      by (simp add: loop_body_shift)
    with Inl show ?thesis
      by (cases a) (simp add: processLoop_unfold [of k tn cs _ "n + offset"]
          processLoop_unfold [of k tn cs _ offset] shift_def)
  next
    case (Inr b)
    obtain off' evs where b: "b = (off', evs)" by (cases b)
    have l: "loop_body k tn cs buf (n + offset) = Inr (n + off', evs)"
      using Inr b by (simp add: loop_body_shift)
    then have "n + offset < n + off'" "n + off' \<le> length buf"
      using loop_body_progress by blast+
    then have d: "length buf - (n + off') < length buf - (n + offset)" by arith
    have "processLoop k tn cs buf (n + offset) acc = processLoop k tn cs buf (n + off') (acc @ evs)"
      using l by (simp add: processLoop_unfold [of k tn cs buf "n + offset"])
    also have "\<dots> = shift n (processLoop k tn cs (drop n buf) off' (acc @ evs))"
      using less [OF d] .
    also have "processLoop k tn cs (drop n buf) off' (acc @ evs) = processLoop k tn cs (drop n buf) offset acc"
      using Inr b by (simp add: processLoop_unfold [of k tn cs "drop n buf" offset])
    finally show ?thesis .
  qed
qed




lemma processLoop_from:
  "processLoop k tn cs buf n acc = shift n (prepend acc (processLoop k tn cs (drop n buf) 0 []))"
  using processLoop_shift [of k tn cs buf n 0 acc] processLoop_acc [of k tn cs "drop n buf" 0 acc]
  by simp





lemma writes_append: "writes (a @ b) = writes a @ writes b"
  by (induction a rule: writes.induct) simp_all

lemma writes_notify: "writes (notify pd c) = []"
  by (simp add: notify_def)

lemma writes_publish: "writes (publish cs pd) = []"
  by (induction cs) (simp_all add: publish_def writes_append writes_notify)



lemma loop_body_valid:
  assumes "valid_datagram d"
  shows "loop_body k (Some t) cs (d @ rest) 0 = Inr (length d, emit k t cs d)"
proof -
  from assms have l: "40 \<le> length d" and v: "drop_bit 4 (d ! 0) = 6"
    and p: "be16 d 4 = length d - 40"
    by (simp_all add: valid_datagram_def be16_def)
  have 1: "(d @ rest) ! 0 = d ! 0" using l by (cases d) auto
  have 2: "be16 (d @ rest) 4 = length d - 40"
    using l p be16_append [of 4 d rest] by simp
  have 3: "slice (d @ rest) 0 (length d) = d" by (simp add: slice_def)
  show ?thesis
    using l by (simp add: loop_body_eq 1 2 3 v)
qed

lemma processLoop_valid:
  assumes "\<forall>d\<in>set ds. valid_datagram d"
  shows "processLoop k (Some t) cs (concat ds) 0 [] =
           (length (concat ds), concat (map (emit k t cs) ds), None)"
  using assms
proof (induction ds)
  case Nil
  then show ?case by (simp add: processLoop_unfold loop_body_eq)
next
  case (Cons d ds)
  then have v: "valid_datagram d" by simp
  have "processLoop k (Some t) cs (d @ concat ds) 0 [] =
        processLoop k (Some t) cs (d @ concat ds) (length d) (emit k t cs d)"
    by (simp add: processLoop_unfold [of _ _ _ _ 0] loop_body_valid [OF v])
  also have "\<dots> = shift (length d) (prepend (emit k t cs d) (processLoop k (Some t) cs (concat ds) 0 []))"
    by (simp add: processLoop_from [of _ _ _ _ "length d"])
  finally show ?case
    using Cons by (simp add: shift_def prepend_def)
qed




section \<open>Address strings of the records\<close>

lemma lt16_cases:
  "(d::nat) < 16 \<Longrightarrow> d = 0 \<or> d = 1 \<or> d = 2 \<or> d = 3 \<or> d = 4 \<or> d = 5 \<or> d = 6 \<or> d = 7 \<or>
     d = 8 \<or> d = 9 \<or> d = 10 \<or> d = 11 \<or> d = 12 \<or> d = 13 \<or> d = 14 \<or> d = 15"
  by arith

lemma digitVal_hexDigit: "d < 16 \<Longrightarrow> digitVal (hexDigit d) = d"
  using lt16_cases [of d] by (auto simp: digitVal_def hexDigit_def)

lemma hexDigit_mem: "d < 16 \<Longrightarrow> hexDigit d \<in> set ''0123456789abcdef''"
  unfolding hexDigit_def by (rule nth_mem) simp

lemma hexDigit_zero: "d < 16 \<Longrightarrow> hexDigit d = CHR ''0'' \<Longrightarrow> d = 0"
  using lt16_cases [of d] by (auto simp: hexDigit_def)

lemma hexval_snoc: "hexval (s @ [c]) = hexval s * 16 + digitVal c"
  by (simp add: hexval_def)

lemma toString16_nonempty: "toString16 n \<noteq> []"
  by (subst toString16.simps) simp

lemma toString16_hex: "is_hex_group n (toString16 n)"
proof (induction n rule: toString16.induct)
  case (1 n)
  show ?case
  proof (cases "n < 16")
    case True
    then have s: "toString16 n = [hexDigit n]" by (subst toString16.simps) simp
    have "hexDigit n = CHR ''0'' \<longrightarrow> [hexDigit n] = ''0''" by simp
    then show ?thesis
      using True hexDigit_mem [of n] by (simp add: s is_hex_group_def hexval_def digitVal_hexDigit)
  next
    case False
    then have s: "toString16 n = toString16 (n div 16) @ [hexDigit (n mod 16)]"
      by (subst toString16.simps) simp
    from False 1 have IH: "is_hex_group (n div 16) (toString16 (n div 16))" by simp
    have ne: "toString16 (n div 16) \<noteq> []" by (rule toString16_nonempty)
    have "hd (toString16 (n div 16)) \<noteq> CHR ''0''"
    proof
      assume "hd (toString16 (n div 16)) = CHR ''0''"
      with IH have "toString16 (n div 16) = ''0''" by (simp add: is_hex_group_def)
      with IH have "n div 16 = 0" by (simp add: is_hex_group_def hexval_def digitVal_def)
      with False show False by simp
    qed
    then show ?thesis
      using IH ne hexDigit_mem [of "n mod 16"] by (simp add: s is_hex_group_def hexval_snoc digitVal_hexDigit)
  qed
qed

lemma published_append: "published (a @ b) = published a @ published b"
  by (induction a rule: published.induct) simp_all

lemma published_publish: "set (published (publish cs pd)) \<subseteq> {pd}"
  by (induction cs) (auto simp: publish_def notify_def published_append)

lemma fmt_is_address_text:
  assumes "length a = 16"
  shows "is_address_text a (fmt a)"
proof -
  have "list_all2 is_hex_group (groups a) (map toString16 (groups a))"
    by (simp add: list_all2_map2 list.rel_refl toString16_hex)
  then show ?thesis
    using assms unfolding is_address_text_def fmt_def by auto
qed

lemma fmt_not_sentinel:
  assumes "length a = 16"
  shows "fmt a \<noteq> ''invalid-address''"
proof -
  have "CHR '':'' \<in> set (fmt a)"
    using assms by (simp add: fmt_def groups_def)
  moreover have "CHR '':'' \<notin> set ''invalid-address''" by simp
  ultimately show ?thesis by metis
qed

lemma published_emit:
  assumes "pd \<in> set (published (emit k t cs p))"
  shows "writes (emit k t cs p) = [p] \<and> src pd = fmt (slice p 8 24) \<and> dst pd = fmt (slice p 24 40)"
proof (cases "TunTap_write k t p")
  case (Inl e)
  with assms show ?thesis by (simp add: emit_def forwardPacket_def caught_def)
next
  case (Inr v)
  have w: "writes (emit k t cs p) = [p]"
    using Inr by (simp add: emit_def forwardPacket_def Let_def caught_def writes_publish split: sum.splits)
  have "src pd = fmt (slice p 8 24) \<and> dst pd = fmt (slice p 24 40)"
    using assms Inr published_publish
    by (fastforce simp: emit_def forwardPacket_def Let_def caught_def split: sum.splits if_splits)
  with w show ?thesis by simp
qed

lemma loop_body_emits:
  assumes "loop_body k (Some t) cs buf offset = Inr (o1, evs)"
  shows "evs = [] \<or> (\<exists>p. 40 \<le> length p \<and> evs = emit k t cs p)"
proof -
  have "\<And>n. offset + 40 + n \<le> length buf \<Longrightarrow> 40 \<le> length (slice buf offset (offset + 40 + n))"
    by (simp add: length_slice)
  then show ?thesis
    using assms unfolding loop_body_eq
    by (auto simp: not_less split: if_splits)
qed

lemma processLoop_emits:
  "processLoop k (Some t) cs buf offset [] = (off, evs, e) \<Longrightarrow>
     \<exists>ps. evs = concat (map (emit k t cs) ps) \<and> (\<forall>p\<in>set ps. 40 \<le> length p)"
proof (induction "length buf - offset" arbitrary: offset evs off e rule: less_induct)
  case less
  show ?case
  proof (cases "loop_body k (Some t) cs buf offset")
    case (Inl a)
    obtain ev x where a: "a = (ev, x)" by (cases a)
    with Inl have "ev = []" using loop_body_Inl_Some by blast
    with Inl a less.prems have "evs = []"
      by (simp add: processLoop_unfold [of k "Some t" cs buf offset])
    then show ?thesis by (intro exI [of _ "[]"]) simp
  next
    case (Inr r)
    obtain o1 ev1 where r: "r = (o1, ev1)" by (cases r)
    from Inr r have "offset < o1" "o1 \<le> length buf"
      using loop_body_progress by blast+
    then have d: "length buf - o1 < length buf - offset" by arith
    obtain o2 ev2 x2 where r2: "processLoop k (Some t) cs buf o1 [] = (o2, ev2, x2)"
      by (cases "processLoop k (Some t) cs buf o1 []") auto
    have "processLoop k (Some t) cs buf offset [] = prepend ev1 (processLoop k (Some t) cs buf o1 [])"
      using Inr r processLoop_acc [of k "Some t" cs buf o1 ev1]
      by (simp add: processLoop_unfold [of k "Some t" cs buf offset])
    with less.prems r2 have evs: "evs = ev1 @ ev2" by (simp add: prepend_def)
    obtain ps where ps: "ev2 = concat (map (emit k t cs) ps)" "\<forall>p\<in>set ps. 40 \<le> length p"
      using less.hyps [OF d r2] by blast
    from loop_body_emits Inr r
    consider "ev1 = []" | p where "40 \<le> length p" "ev1 = emit k t cs p" by blast
    then show ?thesis
    proof cases
      case 1
      with evs ps show ?thesis by auto
    next
      case 2
      with evs ps show ?thesis by (intro exI [of _ "p # ps"]) simp
    qed
  qed
qed

lemma processLoop_None:
  "processLoop k None cs buf offset [] = (off, evs, e) \<Longrightarrow> published evs = [] \<and> writes evs = []"
proof (induction "length buf - offset" arbitrary: offset evs off e rule: less_induct)
  case less
  show ?case
  proof (cases "loop_body k None cs buf offset")
    case (Inl a)
    then have "fst a = [] \<or> fst a = [LogError ''TUN device is null during packet processing'']"
      by (auto simp: loop_body_eq split: if_splits)
    with Inl less.prems show ?thesis
      by (cases a) (auto simp: processLoop_unfold [of k None cs buf offset])
  next
    case (Inr r)
    obtain o1 ev1 where r: "r = (o1, ev1)" by (cases r)
    from Inr r have "offset < o1" "o1 \<le> length buf"
      using loop_body_progress by blast+
    then have d: "length buf - o1 < length buf - offset" by arith
    from Inr r have e1: "ev1 = []" by (auto simp: loop_body_eq split: if_splits)
    have "processLoop k None cs buf offset [] = processLoop k None cs buf o1 []"
      using Inr r e1 by (simp add: processLoop_unfold [of k None cs buf offset])
    with less.prems less.hyps [OF d] show ?thesis by simp
  qed
qed

text \<open>
  \<^bold>\<open>C10\<close> (address strings of published records). Every record that \<open>processBuffer\<close>
  gives to the \<open>data\<close> listeners or to a consumer belongs to a packet \<open>p\<close> of at least 40
  bytes that was handed to the interface; its \<open>src\<close> and \<open>dst\<close> are the texts of the
  16-byte slices \<open>[8,24)\<close> and \<open>[24,40)\<close> of \<open>p\<close>: eight groups joined by colons, each
  group the lowercase hexadecimal numeral of the big-endian 16-bit value, with no leading
  zero and no group left out. Neither string is the sentinel \<open>invalid-address\<close>.
\<close>

theorem published_addresses_formatted:
  assumes "processBuffer k m = (r, m', evs)" and "pd \<in> set (published evs)"
  shows "\<exists>p\<in>set (writes evs). 40 \<le> length p \<and>
           is_address_text (slice p 8 24) (src pd) \<and> is_address_text (slice p 24 40) (dst pd) \<and>
           src pd \<noteq> ''invalid-address'' \<and> dst pd \<noteq> ''invalid-address''"
proof -
  obtain off e where l: "processLoop k (tun m) (packetConsumers m) (buffer m) 0 [] = (off, evs, e)"
    using assms(1) by (auto simp: processBuffer_def split: prod.splits option.splits)
  show ?thesis
  proof (cases "tun m")
    case None
    with l assms(2) processLoop_None show ?thesis by fastforce
  next
    case (Some t)
    with l obtain ps where ps: "evs = concat (map (emit k t (packetConsumers m)) ps)"
      "\<forall>p\<in>set ps. 40 \<le> length p"
      using processLoop_emits by metis
    with assms(2) obtain p where p: "p \<in> set ps" "pd \<in> set (published (emit k t (packetConsumers m) p))"
      by (induction ps arbitrary: evs) (auto simp: published_append)
    then have f: "writes (emit k t (packetConsumers m) p) = [p]"
      "src pd = fmt (slice p 8 24)" "dst pd = fmt (slice p 24 40)"
      using published_emit by blast+
    from p ps have len: "40 \<le> length p" by blast
    then have l1: "length (slice p 8 24) = 16" and l2: "length (slice p 24 40) = 16"
      by (simp_all add: length_slice)
    have "p \<in> set (writes evs)"
      using p(1) f(1) unfolding ps(1)
      by (induction ps) (auto simp: writes_append)
    then show ?thesis
      using len f l1 l2 fmt_is_address_text fmt_not_sentinel by auto
  qed
qed

lemma ts1: "toString16 64768 = ''fd00''"
  by (simp add: toString16.simps hexDigit_def)

lemma toString16_small: "n < 16 \<Longrightarrow> toString16 n = [hexDigit n]"
  by (subst toString16.simps) simp

lemma ts2: "toString16 0 = ''0''" "toString16 1 = ''1''" "toString16 2 = ''2''"
  using toString16_small [of 0] toString16_small [of 1] toString16_small [of 2]
  by (simp_all add: hexDigit_def)

lemma ts3: "toString16 (Suc 0) = ''1''" "toString16 (Suc (Suc 0)) = ''2''"
  using ts2 by (simp_all add: numeral_2_eq_2)

lemma f1: "fmt (slice udp48 8 24) = ''fd00:0:0:0:0:0:0:2''"
  by (simp add: fmt_def slice_def udp48_def groups_def be16_def ts1 ts2 ts3)

lemma f2: "fmt (slice udp48 24 40) = ''fd00:0:0:0:0:0:0:1''"
  by (simp add: fmt_def slice_def udp48_def groups_def be16_def ts1 ts2 ts3)

lemma emit_demo: "emit demo_kernel demo_tun [Consumer 7 False, Consumer 9 True] udp48 =
   [TunWrite udp48, EmitData demo_record, OnPacket 7 demo_record, OnPacket 9 demo_record, LogError ''Error in packet consumer'']"
  unfolding emit_def f1 f2
  by (simp add: forwardPacket_def TunTap_write_def TunDevice_Write_def demo_tun_def demo_kernel_def udp48_def
        readUInt16BE_def publish_def notify_def demo_record_def Let_def)

lemma length_udp48: "length udp48 = 48"
  by (simp add: udp48_def)

lemma processBuffer_demo:
  "processBuffer demo_kernel (demo_manager\<lparr>buffer := udp48\<rparr>) =
     (Inr (), demo_manager\<lparr>buffer := []\<rparr>,
      [TunWrite udp48, EmitData demo_record, OnPacket 7 demo_record, OnPacket 9 demo_record, LogError ''Error in packet consumer''])"
proof -
  have v: "\<forall>d\<in>set [udp48]. valid_datagram d"
    by (simp add: valid_datagram_def udp48_def)
  have "processLoop demo_kernel (Some demo_tun) [Consumer 7 False, Consumer 9 True] (concat [udp48]) 0 [] =
          (length (concat [udp48]), concat (map (emit demo_kernel demo_tun [Consumer 7 False, Consumer 9 True]) [udp48]), None)"
    using processLoop_valid [OF v] .
  then show ?thesis
    by (simp add: processBuffer_def demo_manager_def new_TunnelManager_def emit_demo length_udp48)
qed

theorem published_addresses_formatted_witness:
  "demo_record \<in> set (published [TunWrite udp48, EmitData demo_record, OnPacket 7 demo_record, OnPacket 9 demo_record,
                           LogError ''Error in packet consumer'']) \<and>
   is_address_text (slice udp48 8 24) ''fd00:0:0:0:0:0:0:2'' \<and>
   is_address_text (slice udp48 24 40) ''fd00:0:0:0:0:0:0:1''"
  using published_addresses_formatted [OF processBuffer_demo, of demo_record]
  by (simp add: demo_record_def)

section \<open>L4 records\<close>








section \<open>The handshake\<close>

lemma frame_ok:
  "length body \<le> 65535 \<Longrightarrow>
     frame body = Inr (Buffer_from ''CDTunnel'' @ [of_nat (length body div 256), of_nat (length body mod 256)] @ body)"
  by (simp add: frame_def writeUInt16BE_def)

lemma start_live: "live (exchangeCoreTunnelParameters :: 'j handshake)"
  by (simp add: exchangeCoreTunnelParameters_def frame_def writeUInt16BE_def requestJSON_def
      Buffer_from_def live_def)

lemma length_magic: "length (Buffer_from ''CDTunnel'') = 8"
  by (simp add: Buffer_from_def)

lemma be_length:
  assumes "n \<le> 65535"
  shows "unat (of_nat (n div 256) :: byte) * 256 + unat (of_nat (n mod 256) :: byte) = n"
proof -
  have "n div 256 < 256" using assms by simp
  then have "unat (of_nat (n div 256) :: byte) = n div 256"
    by (simp add: unat_of_nat)
  moreover have "unat (of_nat (n mod 256) :: byte) = n mod 256"
    by (simp add: unat_of_nat)
  ultimately show ?thesis by simp
qed

lemma length_framed: "length (framed body) = 10 + length body"
  by (simp add: framed_def length_magic)

lemma framed_prefix_facts:
  assumes "b @ rest = framed body" and "10 \<le> length b" and "length body \<le> 65535"
  shows "slice b 0 8 = Buffer_from ''CDTunnel''" and "readUInt16BE b 8 = Inr (length body)"
proof -
  have t: "take 10 b = take 10 (framed body)"
    using assms(1,2) by (metis append_eq_conv_conj take_all_iff take_append order_refl diff_is_0_eq' append_Nil2 take_0)
  have "take 8 b = take 8 (take 10 b)" by simp
  also have "\<dots> = Buffer_from ''CDTunnel''"
    unfolding t by (simp add: framed_def length_magic)
  finally show "slice b 0 8 = Buffer_from ''CDTunnel''" by (simp add: slice_def)
  have "b ! 8 = take 10 b ! 8" "b ! 9 = take 10 b ! 9" by simp_all
  then have "b ! 8 = of_nat (length body div 256)" "b ! 9 = of_nat (length body mod 256)"
    unfolding t by (simp_all add: framed_def nth_append length_magic)
  then show "readUInt16BE b 8 = Inr (length body)"
    using assms(2,3) be_length [of "length body"] by (simp add: readUInt16BE_def)
qed

lemma deliver_prefix:
  assumes "live s" and "(hbuffer s @ d) @ rest = framed body" and "rest \<noteq> []"
      and "length body \<le> 65535"
  shows "deliver parse s (Data d) = s\<lparr>hbuffer := hbuffer s @ d\<rparr>"
proof (cases "length (hbuffer s @ d) < 10")
  case True
  then show ?thesis using assms(1) by (simp add: deliver_def handleData_def live_def)
next
  case False
  then have l: "10 \<le> length (hbuffer s @ d)" by simp
  have "length (hbuffer s @ d) + length rest = 10 + length body"
    using assms(2) length_framed [of body] by (metis length_append)
  then have n: "\<not> 10 + length body \<le> length (hbuffer s @ d)"
    using assms(3) by (cases rest) auto
  show ?thesis
    using assms(1) l n framed_prefix_facts [OF assms(2) l assms(4)]
    by (simp add: deliver_def handleData_def live_def Let_def)
qed

lemma deliver_complete:
  assumes "live s" and "hbuffer s @ d = framed body" and "length body \<le> 65535"
  shows "deliver parse s (Data d) =
           (case parse body of
              Some j \<Rightarrow> (cleanup (s\<lparr>hbuffer := framed body\<rparr>))\<lparr>promise := Resolved j\<rparr>
            | None \<Rightarrow> (cleanup (s\<lparr>hbuffer := framed body\<rparr>))\<lparr>promise := Rejected (Error ''Invalid JSON response'')\<rparr>)"
proof -
  have a: "(hbuffer s @ d) @ [] = framed body" using assms(2) by simp
  have l: "10 \<le> length (hbuffer s @ d)" using assms(2) length_framed [of body] by simp
  have p: "slice (framed body) 10 (10 + length body) = body"
    by (simp add: slice_def framed_def length_magic)
  show ?thesis
    using assms(1) l framed_prefix_facts [OF a l assms(3)] assms(2) p length_framed [of body]
    by (simp add: deliver_def handleData_def live_def Let_def resolve_def reject_def cleanup_def
          split: option.splits)
qed

lemma deliver_cleaned: "cleaned s \<Longrightarrow> deliver parse s ev = s"
  by (cases ev) (simp_all add: deliver_def cleaned_def)

lemma deliver_all_cleaned: "cleaned s \<Longrightarrow> deliver_all parse s evs = s"
  unfolding deliver_all_def by (induction evs) (simp_all add: deliver_cleaned)

lemma deliver_all_Cons: "deliver_all parse s (ev # evs) = deliver_all parse (deliver parse s ev) evs"
  by (simp add: deliver_all_def)

lemma deliver_all_frame:
  assumes "length body \<le> 65535" and "parse body = Some j"
  shows "live s \<Longrightarrow> hbuffer s @ concat chunks = framed body \<Longrightarrow> hbuffer s \<noteq> framed body \<Longrightarrow>
           promise (deliver_all parse s (map Data chunks)) = Resolved j \<and>
           cleaned (deliver_all parse s (map Data chunks))"
proof (induction chunks arbitrary: s)
  case Nil
  then show ?case by simp
next
  case (Cons c chunks)
  show ?case
  proof (cases "concat chunks = []")
    case True
    with Cons.prems have e: "hbuffer s @ c = framed body" by simp
    let ?s' = "(cleanup (s\<lparr>hbuffer := framed body\<rparr>))\<lparr>promise := Resolved j\<rparr>"
    have d: "deliver parse s (Data c) = ?s'"
      using deliver_complete [OF Cons.prems(1) e assms(1), of parse] assms(2) by simp
    have c: "cleaned ?s'" by (simp add: cleaned_def cleanup_def)
    show ?thesis
      using deliver_all_cleaned [OF c, of parse "map Data chunks"] c
      by (simp add: deliver_all_Cons d)
  next
    case False
    have e: "(hbuffer s @ c) @ concat chunks = framed body" using Cons.prems(2) by simp
    have d: "deliver parse s (Data c) = s\<lparr>hbuffer := hbuffer s @ c\<rparr>"
      using deliver_prefix [OF Cons.prems(1) e False assms(1)] .
    have l: "live (s\<lparr>hbuffer := hbuffer s @ c\<rparr>)"
      using Cons.prems(1) by (simp add: live_def)
    have n: "hbuffer (s\<lparr>hbuffer := hbuffer s @ c\<rparr>) \<noteq> framed body"
    proof
      assume "hbuffer (s\<lparr>hbuffer := hbuffer s @ c\<rparr>) = framed body"
      then have "hbuffer s @ c = framed body" by simp
      with e have "concat chunks = []" by (metis append_Nil2 same_append_eq)
      with False show False by blast
    qed
    show ?thesis
      using Cons.IH [OF l _ n] e by (simp add: deliver_all_Cons d)
  qed
qed

lemma cleaned_cleanup_settle:
  "cleaned (reject (cleanup s) e)" "cleaned (resolve (cleanup s) v)"
  by (simp_all add: cleaned_def cleanup_def reject_def resolve_def)

lemma live_settle:
  "live s \<Longrightarrow> promise (reject (cleanup s) e) = Rejected e"
  "live s \<Longrightarrow> promise (resolve (cleanup s) v) = Resolved v"
  by (simp_all add: live_def cleanup_def reject_def resolve_def)

lemma live_hbuffer [simp]: "live (s\<lparr>hbuffer := b\<rparr>) = live s"
  by (simp add: live_def)

lemma live_uncaught [simp]: "live (s\<lparr>uncaught := b\<rparr>) = live s"
  by (simp add: live_def)

lemma deliver_live_cases:
  assumes "live s"
  shows "live (deliver parse s ev) \<or>
         (cleaned (deliver parse s ev) \<and> promise (deliver parse s ev) \<noteq> Pending)"
proof (cases ev)
  case (Data d)
  then show ?thesis
    using assms live_settle [of "s\<lparr>hbuffer := hbuffer s @ d\<rparr>"]
    by (auto simp: deliver_def handleData_def Let_def cleaned_cleanup_settle live_def [of s]
        split: sum.splits option.splits)
next
  case (SockError e)
  then show ?thesis
    using assms live_settle [of s]
    by (simp add: deliver_def handleError_def cleaned_cleanup_settle live_def [of s])
next
  case End
  then show ?thesis
    using assms live_settle [of s]
    by (simp add: deliver_def handleEnd_def cleaned_cleanup_settle live_def [of s])
next
  case Timeout
  then show ?thesis
    using assms live_settle [of s]
    by (simp add: deliver_def onTimeout_def cleaned_cleanup_settle live_def [of s])
qed

lemma inv_deliver: "inv_hs s \<Longrightarrow> inv_hs (deliver parse s ev)"
  unfolding inv_hs_def using deliver_live_cases [of s parse ev] deliver_cleaned [of s parse ev]
  by auto

lemma inv_deliver_all: "inv_hs s \<Longrightarrow> inv_hs (deliver_all parse s evs)"
  unfolding deliver_all_def by (induction evs arbitrary: s) (simp_all add: inv_deliver)

lemma reachable_pending_live:
  assumes "s = deliver_all parse exchangeCoreTunnelParameters evs" and "promise s = Pending"
  shows "live s"
  using inv_deliver_all [of exchangeCoreTunnelParameters parse evs] start_live assms
  by (auto simp: inv_hs_def)

lemma frame_Inr:
  assumes "frame body = Inr msg"
  shows "length body \<le> 65535 \<and> msg = framed body"
  using assms by (auto simp: frame_def writeUInt16BE_def framed_def split: if_splits)

text \<open>
  \<^bold>\<open>C5\<close> (handshake framing round-trip). When the bytes \<open>stringify j\<close> of a JSON value
  are framed as the code frames its request, the message is the 8 bytes of \<open>CDTunnel\<close>,
  then the byte length as a big-endian 16-bit integer, then the bytes themselves, 10 more
  bytes than the JSON text. When that message arrives in any chunking, \<open>handleData\<close>
  resolves the promise with \<open>j\<close> and removes the listeners and the timer, given that
  \<open>JSON.parse\<close> reads \<open>j\<close> back from its own text.
\<close>

theorem handshake_framing_roundtrip:
  assumes "frame (stringify j) = Inr msg"
      and "parse (stringify j) = Some j"
      and "concat chunks = msg"
  shows "slice msg 0 8 = Buffer_from ''CDTunnel'' \<and>
         readUInt16BE msg 8 = Inr (length (stringify j)) \<and>
         drop 10 msg = stringify j \<and>
         length msg = 10 + length (stringify j) \<and>
         promise (deliver_all parse exchangeCoreTunnelParameters (map Data chunks)) = Resolved j \<and>
         cleaned (deliver_all parse exchangeCoreTunnelParameters (map Data chunks))"
proof -
  let ?body = "stringify j"
  from frame_Inr [OF assms(1)] have l: "length ?body \<le> 65535" and m: "msg = framed ?body"
    by simp_all
  have a: "msg @ [] = framed ?body" using m by simp
  have t: "10 \<le> length msg" using m by (simp add: length_framed)
  have 1: "slice msg 0 8 = Buffer_from ''CDTunnel''" "readUInt16BE msg 8 = Inr (length ?body)"
    using framed_prefix_facts [OF a t l] by simp_all
  have 2: "drop 10 msg = ?body" "length msg = 10 + length ?body"
    unfolding m by (simp_all add: framed_def length_magic)
  have s: "hbuffer (exchangeCoreTunnelParameters :: 'a handshake) = []"
    by (simp add: exchangeCoreTunnelParameters_def split: sum.splits)
  have n: "hbuffer (exchangeCoreTunnelParameters :: 'a handshake) \<noteq> framed ?body"
    using length_framed [of ?body] s by (metis add_is_0 list.size(3) zero_neq_numeral)
  have 3: "promise (deliver_all parse exchangeCoreTunnelParameters (map Data chunks)) = Resolved j \<and>
           cleaned (deliver_all parse exchangeCoreTunnelParameters (map Data chunks))"
    using deliver_all_frame [where body="?body" and parse=parse and j=j
        and s="exchangeCoreTunnelParameters" and chunks=chunks] l assms(2,3) start_live n m s
    by simp
  from 1 2 3 show ?thesis by simp
qed

theorem handshake_framing_roundtrip_witness:
  "frame (id (Buffer_from requestJSON)) = Inr (Buffer_from ''CDTunnel'' @ [0, 45] @ Buffer_from requestJSON) \<and>
   identity_codec (id (Buffer_from requestJSON)) = Some (Buffer_from requestJSON) \<and>
   promise (deliver_all identity_codec exchangeCoreTunnelParameters
      (map Data [take 3 (Buffer_from ''CDTunnel''), drop 3 (Buffer_from ''CDTunnel'') @ [0], [],
                 45 # take 20 (Buffer_from requestJSON), drop 20 (Buffer_from requestJSON)]))
     = Resolved (Buffer_from requestJSON)"
proof -
  have f: "frame (id (Buffer_from requestJSON)) = Inr (Buffer_from ''CDTunnel'' @ [0, 45] @ Buffer_from requestJSON)"
    by (simp add: frame_def writeUInt16BE_def requestJSON_def Buffer_from_def)
  have p: "identity_codec (id (Buffer_from requestJSON)) = Some (Buffer_from requestJSON)"
    by (simp add: identity_codec_def)
  have c: "concat [take 3 (Buffer_from ''CDTunnel''), drop 3 (Buffer_from ''CDTunnel'') @ [0], [],
                 45 # take 20 (Buffer_from requestJSON), drop 20 (Buffer_from requestJSON)]
           = Buffer_from ''CDTunnel'' @ [0, 45] @ Buffer_from requestJSON"
    by simp
  show ?thesis
    using handshake_framing_roundtrip [where stringify=id and j="Buffer_from requestJSON"
        and parse=identity_codec
        and msg="Buffer_from ''CDTunnel'' @ [0, 45] @ Buffer_from requestJSON"
        and chunks="[take 3 (Buffer_from ''CDTunnel''), drop 3 (Buffer_from ''CDTunnel'') @ [0], [],
                 45 # take 20 (Buffer_from requestJSON), drop 20 (Buffer_from requestJSON)]"] f p c
    by simp
qed

lemma cleaned_of_rejected:
  assumes "live s" and "promise (deliver parse s ev) = Rejected e"
  shows "cleaned (deliver parse s ev)"
  using deliver_live_cases [OF assms(1), of parse ev] assms(2) by (auto simp: live_def)

text \<open>
  \<^bold>\<open>C6\<close>, as amended (handshake failure modes). In every state that the handshake can
  reach with its promise still pending: a chunk that brings the accumulated bytes to 10 or
  more with first 8 bytes other than \<open>CDTunnel\<close> rejects with \<open>Invalid packet format\<close>; a
  chunk that completes a frame whose payload \<open>JSON.parse\<close> refuses rejects with
  \<open>Invalid JSON response\<close>; the end of the stream rejects with \<open>Connection closed before
  receiving complete response\<close>; these three are protocol errors. The timer, armed for
  30000 ms when the request is sent, rejects with \<open>Tunnel handshake timeout\<close>. Whatever
  event rejects the promise also leaves the three listeners removed and the timer cleared.
\<close>

theorem handshake_failure_modes:
  assumes "s = deliver_all parse exchangeCoreTunnelParameters evs" and "promise s = Pending"
  shows "(10 \<le> length (hbuffer s @ d) \<and> slice (hbuffer s @ d) 0 8 \<noteq> Buffer_from ''CDTunnel'' \<longrightarrow>
            promise (deliver parse s (Data d)) = Rejected (Error ''Invalid packet format'')) \<and>
         (10 \<le> length (hbuffer s @ d) \<and> slice (hbuffer s @ d) 0 8 = Buffer_from ''CDTunnel'' \<and>
          readUInt16BE (hbuffer s @ d) 8 = Inr n \<and> 10 + n \<le> length (hbuffer s @ d) \<and>
          parse (slice (hbuffer s @ d) 10 (10 + n)) = None \<longrightarrow>
            promise (deliver parse s (Data d)) = Rejected (Error ''Invalid JSON response'')) \<and>
         promise (deliver parse s End) =
            Rejected (Error ''Connection closed before receiving complete response'') \<and>
         promise (deliver parse s Timeout) = Rejected (Error ''Tunnel handshake timeout'') \<and>
         kind_of (Error ''Invalid packet format'') = ProtocolError \<and>
         kind_of (Error ''Invalid JSON response'') = ProtocolError \<and>
         kind_of (Error ''Connection closed before receiving complete response'') = ProtocolError \<and>
         kind_of (Error ''Tunnel handshake timeout'') = HandshakeTimeout \<and>
         (\<forall>ev e. promise (deliver parse s ev) = Rejected e \<longrightarrow> cleaned (deliver parse s ev)) \<and>
         timeoutHandle (exchangeCoreTunnelParameters :: 'a handshake) = Some 30000"
proof -
  have l: "live s" using reachable_pending_live [OF assms] .
  let ?s = "s\<lparr>hbuffer := hbuffer s @ d\<rparr>"
  have ls: "live ?s" using l by simp
  have 1: "10 \<le> length (hbuffer s @ d) \<and> slice (hbuffer s @ d) 0 8 \<noteq> Buffer_from ''CDTunnel'' \<longrightarrow>
            promise (deliver parse s (Data d)) = Rejected (Error ''Invalid packet format'')"
    using l live_settle(1) [OF ls]
    by (simp add: deliver_def handleData_def Let_def live_def [of s])
  have 2: "10 \<le> length (hbuffer s @ d) \<and> slice (hbuffer s @ d) 0 8 = Buffer_from ''CDTunnel'' \<and>
          readUInt16BE (hbuffer s @ d) 8 = Inr n \<and> 10 + n \<le> length (hbuffer s @ d) \<and>
          parse (slice (hbuffer s @ d) 10 (10 + n)) = None \<longrightarrow>
            promise (deliver parse s (Data d)) = Rejected (Error ''Invalid JSON response'')"
    using l live_settle(1) [OF ls]
    by (simp add: deliver_def handleData_def Let_def live_def [of s])
  have 3: "promise (deliver parse s End) =
            Rejected (Error ''Connection closed before receiving complete response'')"
    using l live_settle(1) [OF l] by (simp add: deliver_def handleEnd_def live_def [of s])
  have 4: "promise (deliver parse s Timeout) = Rejected (Error ''Tunnel handshake timeout'')"
    using l live_settle(1) [OF l] by (simp add: deliver_def onTimeout_def live_def [of s])
  have 5: "kind_of (Error ''Invalid packet format'') = ProtocolError"
    "kind_of (Error ''Invalid JSON response'') = ProtocolError"
    "kind_of (Error ''Connection closed before receiving complete response'') = ProtocolError"
    "kind_of (Error ''Tunnel handshake timeout'') = HandshakeTimeout"
    by (simp_all add: kind_of_def)
  have 6: "\<forall>ev e. promise (deliver parse s ev) = Rejected e \<longrightarrow> cleaned (deliver parse s ev)"
    using cleaned_of_rejected [OF l] by blast
  have 7: "timeoutHandle (exchangeCoreTunnelParameters :: 'a handshake) = Some 30000"
    using start_live
    by (simp add: exchangeCoreTunnelParameters_def live_def split: sum.splits)
  from 1 2 3 4 5 6 7 show ?thesis by blast
qed

lemma start_no_json:
  "(exchangeCoreTunnelParameters :: unit handshake) =
     \<lparr>hbuffer = [], onData_registered = True, onError_registered = True,
      onEnd_registered = True, timeoutHandle = Some 30000, promise = Pending,
      written = [Buffer_from ''CDTunnel'' @ [0, 45] @ Buffer_from requestJSON], uncaught = None\<rparr>"
  by (simp add: exchangeCoreTunnelParameters_def frame_def writeUInt16BE_def requestJSON_def
      Buffer_from_def)

lemma after_C:
  "deliver_all no_json exchangeCoreTunnelParameters [Data [0x43]] =
     \<lparr>hbuffer = [0x43], onData_registered = True, onError_registered = True,
      onEnd_registered = True, timeoutHandle = Some 30000, promise = Pending,
      written = [Buffer_from ''CDTunnel'' @ [0, 45] @ Buffer_from requestJSON], uncaught = None\<rparr>"
  by (simp add: deliver_all_def deliver_def handleData_def start_no_json)

theorem handshake_failure_modes_witness:
  "promise (deliver_all no_json exchangeCoreTunnelParameters [Data [0x43]]) = Pending \<and>
   promise (deliver no_json (deliver_all no_json exchangeCoreTunnelParameters [Data [0x43]]) (Data nine_X))
     = Rejected (Error ''Invalid packet format'') \<and>
   cleaned (deliver no_json (deliver_all no_json exchangeCoreTunnelParameters [Data [0x43]]) (Data nine_X)) \<and>
   promise (deliver no_json (deliver_all no_json exchangeCoreTunnelParameters [Data [0x43]]) Timeout)
     = Rejected (Error ''Tunnel handshake timeout'')"
proof -
  have p: "promise (deliver_all no_json exchangeCoreTunnelParameters [Data [0x43]]) = Pending"
    by (simp add: after_C)
  have h: "10 \<le> length (hbuffer (deliver_all no_json exchangeCoreTunnelParameters [Data [0x43]]) @ nine_X) \<and>
           slice (hbuffer (deliver_all no_json exchangeCoreTunnelParameters [Data [0x43]]) @ nine_X) 0 8
             \<noteq> Buffer_from ''CDTunnel''"
    by (simp add: after_C nine_X_def slice_def Buffer_from_def)
  show ?thesis
    using handshake_failure_modes [OF refl p, of nine_X 0] h p by blast
qed

text \<open>
  The claim as written fails: nine bytes that do not begin with \<open>CDTunnel\<close> leave the
  promise pending, and if nothing more arrives the rejection is the timeout.
\<close>

theorem handshake_bad_magic_counterexample:
  "length (hbuffer (deliver no_json exchangeCoreTunnelParameters (Data nine_X))) = 9 \<and>
   slice (hbuffer (deliver no_json exchangeCoreTunnelParameters (Data nine_X))) 0 8
     \<noteq> Buffer_from ''CDTunnel'' \<and>
   promise (deliver no_json exchangeCoreTunnelParameters (Data nine_X)) = Pending \<and>
   promise (deliver_all no_json exchangeCoreTunnelParameters [Data nine_X, Timeout])
     = Rejected (Error ''Tunnel handshake timeout'') \<and>
   kind_of (Error ''Tunnel handshake timeout'') \<noteq> ProtocolError"
  by (simp add: deliver_all_def deliver_def handleData_def start_no_json nine_X_def slice_def
      Buffer_from_def onTimeout_def reject_def cleanup_def kind_of_def)


section \<open>Stop\<close>






lemma performStop_fields:
  "cancelled (fst (performStop m))"
  "cleanupPromise (fst (performStop m)) = cleanupPromise m"
  by (simp_all add: performStop_def Let_def)











section \<open>The pull stream\<close>

lemma pump_blocked: "phase st = Awaiting \<Longrightarrow> pump (m, st) = (m, st)"
  by (subst pump.simps) (simp add: resumable_def)

lemma stop_cancelled: "cancelled m \<Longrightarrow> cancelled (fst (snd (stop f m)))"
  using performStop_fields(1) [of m]
  by (auto simp: stop_def split: option.splits prod.splits)

lemma stop_sets_cancelled:
  "cleanupPromise m = None \<Longrightarrow> cancelled (fst (snd (stop f m))) \<and> packetConsumers (fst (snd (stop f m))) = []"
  by (simp add: stop_def performStop_def Let_def split: prod.splits)

lemma blocked_step:
  assumes "cancelled m" and "phase st = Awaiting"
  shows "\<exists>m' st'. stream_step k (m, st) ev = (m', st') \<and> cancelled m' \<and> phase st' = Awaiting \<and>
           yielded st' = yielded st"
proof (cases ev)
  case NextCall
  then show ?thesis
    using assms by (simp add: stream_step_def next_call_def pump_blocked)
next
  case ReturnCall
  then show ?thesis using assms by (simp add: stream_step_def return_call_def)
next
  case (DataChunk d)
  then show ?thesis using assms by (simp add: stream_step_def onData_def)
next
  case StopCall
  then show ?thesis using assms stop_cancelled [of m 0] by (simp add: stream_step_def)
qed

lemma blocked_run:
  assumes "cancelled m" and "phase st = Awaiting"
  shows "phase (snd (stream_run k (m, st) evs)) = Awaiting \<and>
         yielded (snd (stream_run k (m, st) evs)) = yielded st"
  using assms
proof (induction evs arbitrary: m st)
  case Nil
  then show ?case by (simp add: stream_run_def)
next
  case (Cons ev evs)
  obtain m' st' where s: "stream_step k (m, st) ev = (m', st')" "cancelled m'"
    "phase st' = Awaiting" "yielded st' = yielded st"
    using blocked_step [OF Cons.prems, of k ev] by blast
  have "stream_run k (m, st) (ev # evs) = stream_run k (m', st') evs"
    by (simp add: stream_run_def s(1))
  with Cons.IH [OF s(2) s(3)] s(4) show ?case by simp
qed

lemma blocked_stream_eq:
  "blocked_stream =
     (new_TunnelManager\<lparr>cancelled := True, cleanupPromise := Some 0\<rparr>,
      (new_stream 7)\<lparr>phase := Awaiting, resolver := True, requests := 1\<rparr>)"
proof -
  have 1: "stream_step demo_kernel (new_TunnelManager\<lparr>tun := Some demo_tun\<rparr>, new_stream 7) NextCall =
        (new_TunnelManager\<lparr>tun := Some demo_tun, packetConsumers := [Consumer 7 False]\<rparr>,
         (new_stream 7)\<lparr>requests := 1, phase := Awaiting, resolver := True\<rparr>)"
    apply (simp add: stream_step_def next_call_def new_stream_def)
    apply (subst pump.simps)
    apply (simp add: resumable_def resume_def loop_head_def addPacketConsumer_def own_consumer_def
        new_TunnelManager_def)
    apply (subst pump.simps)
    apply (simp add: resumable_def)
    done
  show ?thesis
    unfolding blocked_stream_def stream_run_def
    by (simp add: 1) (simp add: stream_step_def stop_def performStop_def Let_def
        new_TunnelManager_def new_stream_def)
qed

text \<open>
  \<^bold>\<open>C4\<close> (pull stream and cancellation), evaluated on the code. An iterator of
  \<open>getPacketStream\<close> whose \<open>next()\<close> is waiting on an empty queue stays in that wait after
  \<open>stop()\<close>, whatever happens afterwards: no further call of \<open>next()\<close> or \<open>return()\<close>, no
  chunk from the stream and no second \<open>stop()\<close> ends the sequence, and nothing is yielded.
\<close>

theorem stream_blocked_after_stop:
  "cancelled (fst blocked_stream) \<and> packetConsumers (fst blocked_stream) = [] \<and>
   (\<forall>evs. phase (snd (stream_run demo_kernel blocked_stream evs)) = Awaiting \<and>
          yielded (snd (stream_run demo_kernel blocked_stream evs)) = [])"
proof -
  have c: "cancelled (fst blocked_stream)" "phase (snd blocked_stream) = Awaiting"
    "yielded (snd blocked_stream) = []" "packetConsumers (fst blocked_stream) = []"
    by (simp_all add: blocked_stream_eq new_stream_def new_TunnelManager_def)
  have "\<And>evs. phase (snd (stream_run demo_kernel blocked_stream evs)) = Awaiting \<and>
          yielded (snd (stream_run demo_kernel blocked_stream evs)) = []"
    using blocked_run [of "fst blocked_stream" "snd blocked_stream" demo_kernel] c by simp
  with c show ?thesis by blast
qed

text \<open>When the iterator is suspended at a \<open>yield\<close> as \<open>stop()\<close> runs, the next call of
  \<open>next()\<close> ends the sequence and the \<open>finally\<close> block removes the consumer.\<close>

lemma stream_ends_when_not_blocked:
  assumes "cancelled m" and "phase st = AtYield"
  shows "phase (snd (stream_step k (m, st) NextCall)) = Finished \<and>
         own_consumer st \<notin> set (packetConsumers (fst (stream_step k (m, st) NextCall)))"
proof -
  have "pump (m, st\<lparr>requests := requests st + 1\<rparr>) = finish (m, st\<lparr>requests := requests st + 1\<rparr>)"
    apply (subst pump.simps)
    using assms apply (simp add: resumable_def resume_def loop_head_def)
    apply (subst pump.simps)
    apply (simp add: resumable_def finish_def)
    done
  then show ?thesis
    using assms
    by (cases "own_consumer st")
       (auto simp: stream_step_def next_call_def finish_def removePacketConsumer_def own_consumer_def)
qed

section \<open>Darwin framing\<close>

lemma htonl_AF_INET6: "htonl AF_INET6 = [0, 0, 0, 30]"
  by (simp add: htonl_def AF_INET6_def)

lemma slice_drop_take: "slice b 4 n = drop 4 (take n b)"
  by (simp add: slice_def drop_take)

text \<open>
  \<^bold>\<open>C7\<close>, as amended (Darwin framing). On an open utun device: when \<open>read\<close> returns more
  than 4 bytes, \<open>Read\<close> gives the bytes the kernel returned without the first 4; when it
  returns 1 to 4 bytes, or nothing with \<open>errno\<close> \<open>EAGAIN\<close> or \<open>EWOULDBLOCK\<close>, \<open>Read\<close> gives
  an empty buffer. \<open>Write\<close> hands the kernel the bytes \<open>00 00 00 1e\<close> followed by the
  payload and returns the count of the system call less 4 when the count exceeds 4, and 0
  when the count is between 0 and 4; a payload written in full gives its own length.
\<close>

theorem darwin_framing:
  assumes "apple k" and "is_open d"
      and "sys_read k (n mod 2 ^ 32 + 4) = (r, e, tmp)"
      and "sys_write k ([0, 0, 0, 30] @ p) = (w, e')"
  shows "(4 < r \<longrightarrow> TunDevice_Read k d (Some n) = Inr (BufferV (drop 4 (take (nat r) tmp)))) \<and>
         (0 < r \<and> r \<le> 4 \<longrightarrow> TunDevice_Read k d (Some n) = Inr (BufferV [])) \<and>
         (r \<le> 0 \<and> (e = EAGAIN k \<or> e = EWOULDBLOCK k) \<longrightarrow>
            TunDevice_Read k d (Some n) = Inr (BufferV [])) \<and>
         htonl AF_INET6 = [0, 0, 0, 30] \<and>
         (4 < w \<longrightarrow> TunDevice_Write k d p = Inr (Number (w - 4))) \<and>
         (0 \<le> w \<and> w \<le> 4 \<longrightarrow> TunDevice_Write k d p = Inr (Number 0)) \<and>
         (w = int (length p) + 4 \<longrightarrow> TunDevice_Write k d p = Inr (Number (int (length p))))"
proof -
  have rd: "TunDevice_Read k d (Some n) =
      (if r \<le> 0 then (if e = EAGAIN k \<or> e = EWOULDBLOCK k then Inr (BufferV []) else Inr (ErrorValue e))
       else if r > 4 then Inr (BufferV (drop 4 (take (nat r) tmp))) else Inr (BufferV []))"
    using assms(1,2,3) by (simp add: TunDevice_Read_def slice_drop_take)
  have wr: "TunDevice_Write k d p =
      (if w < 0 then Inr (ErrorValue e') else Inr (Number (if w > 4 then w - 4 else 0)))"
    using assms(1,2,4) by (simp add: TunDevice_Write_def htonl_AF_INET6)
  show ?thesis
    unfolding rd wr by (auto simp: htonl_AF_INET6)
qed

theorem darwin_framing_witness:
  "apple kernel_packet \<and> is_open (device demo_tun) \<and>
   TunDevice_Read kernel_packet (device demo_tun) (Some 16384) = Inr (BufferV udp48) \<and>
   TunDevice_Write kernel_packet (device demo_tun) udp48 = Inr (Number 48)"
proof -
  have a: "apple kernel_packet" "is_open (device demo_tun)"
    by (simp_all add: kernel_packet_def demo_kernel_def demo_tun_def)
  have r: "sys_read kernel_packet (16384 mod 2 ^ 32 + 4) = (52, 0, [0, 0, 0, 30] @ udp48 @ replicate (16388 - 52) 0)"
    by (simp add: kernel_packet_def)
  have w: "sys_write kernel_packet ([0, 0, 0, 30] @ udp48) = (52, 0)"
    by (simp add: kernel_packet_def demo_kernel_def udp48_def)
  have l: "length udp48 = 48" by (simp add: udp48_def)
  have t: "drop 4 (take (nat 52) ([0, 0, 0, 30] @ udp48 @ replicate (16388 - 52) 0)) = udp48"
    by (simp add: l)
  show ?thesis
    using darwin_framing [OF a r w] a t by simp
qed

text \<open>
  The claim as written fails in two places: a \<open>read\<close> that returns 0 bytes with \<open>errno\<close> 0
  gives an error value, not an empty buffer, and a \<open>write\<close> that returns 2 gives 0, not
  \<open>2 - 4\<close>.
\<close>

theorem darwin_framing_counterexample:
  "TunDevice_Read kernel_eof (device demo_tun) (Some 16384) = Inr (ErrorValue 0) \<and>
   TunDevice_Read kernel_eof (device demo_tun) (Some 16384) \<noteq> Inr (BufferV []) \<and>
   TunDevice_Write kernel_short_write (device demo_tun) udp48 = Inr (Number 0) \<and>
   TunDevice_Write kernel_short_write (device demo_tun) udp48 \<noteq> Inr (Number (2 - 4))"
  by (simp add: TunDevice_Read_def TunDevice_Write_def kernel_eof_def kernel_short_write_def
      demo_kernel_def demo_tun_def EAGAIN_def EWOULDBLOCK_def)

section \<open>Configuration and the lifecycle of the handle\<close>

lemma show_nat_small: "n < 10 \<Longrightarrow> show_nat n = [decDigit n]"
  by (subst show_nat.simps) simp

lemma show_nat_step: "10 \<le> n \<Longrightarrow> show_nat n = show_nat (n div 10) @ [decDigit (n mod 10)]"
  by (subst show_nat.simps) simp

lemma show_int_1500: "show_int 1500 = ''1500''"
  using show_nat_step [of 1500] show_nat_step [of 150] show_nat_step [of 15] show_nat_small [of 1]
  by (simp add: show_int_def decDigit_def)







lemma handle_ok_new: "handle_ok (new_TunTap nm)"
  by (simp add: handle_ok_def new_TunTap_def)

lemma TunDevice_Open_true:
  "TunDevice_Open k d = (Inr b, d') \<Longrightarrow> b \<and> is_open d'"
  by (auto simp: TunDevice_Open_def failed_open_def split: if_splits sum.splits)

lemma handle_ok_open: "handle_ok t \<Longrightarrow> handle_ok (snd (TunTap_open k t))"
  using TunDevice_Open_true [of k "device t"]
  by (auto simp: handle_ok_def TunTap_open_def split: prod.splits sum.splits if_splits)

lemma handle_ok_close: "handle_ok (snd (TunTap_close t)) \<and> \<not> isOpen (snd (TunTap_close t))"
  by (simp add: handle_ok_def TunTap_close_def)

lemma io_requires_open:
  "\<not> isOpen t \<Longrightarrow> TunTap_read k t n = Inl (Error ''Device not open'') \<and>
                   TunTap_write k t b = Inl (Error ''Device not open'')"
  by (simp add: TunTap_read_def TunTap_write_def)

end
